theory Spec2Isabelle
  imports Main
begin

section \<open>Values, field maps and JavaScript helpers\<close>

text \<open>
  Cell values are the primitives the store is fed with: \<open>null\<close>, \<open>undefined\<close>,
  booleans, integer numbers and strings. On these, JavaScript's strict equality
  \<open>===\<close> is equality of the datatype. Identities are modelled as unbounded
  integers (the source increments a double, exact below \<open>2^53\<close>).

  One more kind of value can come out of a property read: \<open>VProto k\<close> is the member
  that every object literal inherits from \<open>Object.prototype\<close> under the name \<open>k\<close>,
  a built-in function or, for \<open>__proto__\<close>, the prototype object itself. These are
  distinct objects for distinct names, so \<open>===\<close> is again equality of the datatype.
\<close>

datatype val = VNull | VUndef | VBool bool | VNum int | VStr string | VProto string

datatype error =
    FirstColumnNotId
  | UniqueViolation "string list"
  | ForeignKeyViolation string string val
  | ValidationError nat
  | CircularDependency string
  | TypeError

text \<open>
  An object literal such as \<open>{x: 1, y: 2}\<close> is the list of its own properties in
  \<open>for ... in\<close> order. Its prototype is \<open>Object.prototype\<close>, whose members are not
  enumerable: \<open>for ... in\<close> does not visit them, but \<open>obj[key]\<close> finds them when the
  object has no property of its own under that key. For any other missing key
  \<open>obj[key]\<close> is \<open>undefined\<close>.
\<close>

type_synonym obj = "(string \<times> val) list"

definition keys :: "obj \<Rightarrow> string list" where
  "keys ob = map fst ob"

definition proto_members :: "string list" where
  "proto_members =
     [''constructor'', ''__defineGetter__'', ''__defineSetter__'', ''hasOwnProperty'',
      ''__lookupGetter__'', ''__lookupSetter__'', ''isPrototypeOf'', ''propertyIsEnumerable'',
      ''toString'', ''valueOf'', ''__proto__'', ''toLocaleString'']"

definition obj_get :: "obj \<Rightarrow> string \<Rightarrow> val" where
  "obj_get ob k =
     (case map_of ob k of
        Some v \<Rightarrow> v
      | None \<Rightarrow> if k \<in> set proto_members then VProto k else VUndef)"

text \<open>\<open>arr[i]\<close>: \<open>undefined\<close> outside the array, so also at index \<open>-1\<close>.\<close>

definition js_nth :: "val list \<Rightarrow> int \<Rightarrow> val" where
  "js_nth xs i = (if 0 \<le> i \<and> i < int (length xs) then xs ! nat i else VUndef)"

text \<open>\<open>arr[i] = v\<close> for \<open>i \<ge> 0\<close>: past the end the array grows, the gap left empty.\<close>

definition js_set :: "val list \<Rightarrow> nat \<Rightarrow> val \<Rightarrow> val list" where
  "js_set xs i v =
     (if i < length xs then xs[i := v] else xs @ replicate (i - length xs) VUndef @ [v])"

text \<open>\<open>Array.prototype.indexOf\<close>: the first position, or \<open>-1\<close>.\<close>

fun indexOf :: "string list \<Rightarrow> string \<Rightarrow> int" where
  "indexOf [] x = - 1"
| "indexOf (y # ys) x =
     (if y = x then 0 else (let r = indexOf ys x in if r < 0 then - 1 else r + 1))"

text \<open>\<open>v == null\<close> holds for \<open>null\<close> and \<open>undefined\<close> only.\<close>

fun is_nullish :: "val \<Rightarrow> bool" where
  "is_nullish VNull = True"
| "is_nullish VUndef = True"
| "is_nullish _ = False"

fun truthy :: "val \<Rightarrow> bool" where
  "truthy VNull = False"
| "truthy VUndef = False"
| "truthy (VBool b) = b"
| "truthy (VNum n) = (n \<noteq> 0)"
| "truthy (VStr s) = (s \<noteq> [])"
| "truthy (VProto k) = True"

text \<open>Decimal printing of numbers, as string conversion does it.\<close>

definition digit_char :: "nat \<Rightarrow> char" where
  "digit_char d = ''0123456789'' ! d"

fun show_nat :: "nat \<Rightarrow> string" where
  "show_nat n = (if n < 10 then [digit_char n] else show_nat (n div 10) @ [digit_char (n mod 10)])"

definition show_int :: "int \<Rightarrow> string" where
  "show_int i = (if i < 0 then CHR ''-'' # show_nat (nat (- i)) else show_nat (nat i))"

text \<open>
  The text of an inherited member, as V8 prints a built-in function and a plain
  object. \<open>Object.prototype.constructor\<close> is the function \<open>Object\<close>.
\<close>

definition proto_text :: "string \<Rightarrow> string" where
  "proto_text k =
     (if k = ''__proto__'' then ''[object Object]''
      else ''function '' @ (if k = ''constructor'' then ''Object'' else k) @ ''() { [native code] }'')"

text \<open>
  The conversion \<open>Array.prototype.join\<close> applies to an element: \<open>null\<close> and
  \<open>undefined\<close> become the empty string.
\<close>

fun join_str :: "val \<Rightarrow> string" where
  "join_str VNull = []"
| "join_str VUndef = []"
| "join_str (VBool b) = (if b then ''true'' else ''false'')"
| "join_str (VNum n) = show_int n"
| "join_str (VStr s) = s"
| "join_str (VProto k) = proto_text k"

text \<open>The conversion of a template literal \<open>`${v}`\<close>.\<close>

fun to_string :: "val \<Rightarrow> string" where
  "to_string VNull = ''null''"
| "to_string VUndef = ''undefined''"
| "to_string (VBool b) = (if b then ''true'' else ''false'')"
| "to_string (VNum n) = show_int n"
| "to_string (VStr s) = s"
| "to_string (VProto k) = proto_text k"

fun join :: "string \<Rightarrow> string list \<Rightarrow> string" where
  "join sep [] = []"
| "join sep [x] = x"
| "join sep (x # y # ys) = x @ sep @ join sep (y # ys)"

text \<open>\<open>name.startsWith('tbl') ? name : 'tbl' + name\<close>\<close>

definition normalize :: "string \<Rightarrow> string" where
  "normalize name = (if take 3 name = ''tbl'' then name else ''tbl'' @ name)"

section \<open>Row store: classes \<open>Columns\<close>, \<open>Rows\<close> and \<open>Table\<close>\<close>

text \<open>
  A \<open>Table\<close> and the \<open>Rows\<close> object it owns are one record. \<open>data\<close> holds the
  live rows in insertion order, each the array of its values. Every \<open>Map\<close> of
  \<open>uniqueMaps\<close> is used through \<open>has\<close>, \<open>set(key, true)\<close> and \<open>delete\<close> only,
  so it is the set of its keys.
\<close>

record table =
  tname :: string
  columns :: "string list"
  unique :: "string list list"
  data :: "val list list"
  nextId :: int
  uniqueMaps :: "string set list"

definition getIndex :: "string list \<Rightarrow> string \<Rightarrow> int" where
  "getIndex names name = indexOf names name"

text \<open>The constructor of \<open>Table\<close>, with the one of \<open>Rows\<close> inlined.\<close>

definition Table :: "string \<Rightarrow> string list \<Rightarrow> string list list \<Rightarrow> error + table" where
  "Table name columnNames uniq =
     (case columnNames of
        [] \<Rightarrow> Inl FirstColumnNotId
      | c # _ \<Rightarrow>
          if c \<noteq> ''id'' then Inl FirstColumnNotId
          else Inr \<lparr>tname = name, columns = columnNames, unique = uniq, data = [],
                    nextId = 1, uniqueMaps = map (\<lambda>_. {}) uniq\<rparr>)"

text \<open>\<open>Rows._getUniqueKey\<close>, given the columns of the constraint.\<close>

definition getUniqueKey :: "string list \<Rightarrow> val list \<Rightarrow> string list \<Rightarrow> string" where
  "getUniqueKey names rowData uniqueCols =
     join ''::'' (map (\<lambda>col. join_str (js_nth rowData (getIndex names col))) uniqueCols)"

text \<open>
  The constraint loop of \<open>Rows.add\<close> from index \<open>i\<close> on. It returns the error
  thrown, if any, and the maps as the loop left them: a \<open>throw\<close> does not undo
  the \<open>set\<close> calls of the iterations before it. \<open>uniqueMaps[i]\<close> is
  \<open>undefined\<close> past the end of the list, where the call of \<open>has\<close> is a TypeError.
\<close>

fun add_loop ::
  "string list \<Rightarrow> val list \<Rightarrow> nat \<Rightarrow> string list list \<Rightarrow> string set list \<Rightarrow>
   error option \<times> string set list" where
  "add_loop names arr i [] maps = (None, maps)"
| "add_loop names arr i (uc # ucs) maps =
     (if length maps \<le> i then (Some TypeError, maps)
      else let key = getUniqueKey names arr uc in
        if key \<in> maps ! i then (Some (UniqueViolation uc), maps)
        else add_loop names arr (Suc i) ucs (maps[i := insert key (maps ! i)]))"

definition fill_row :: "string list \<Rightarrow> obj \<Rightarrow> val list" where
  "fill_row names rowData =
     fold (\<lambda>key arr. let idx = getIndex names key in
                       if idx > - 1 then js_set arr (nat idx) (obj_get rowData key) else arr)
          (keys rowData) (replicate (length names) VNull)"

definition Rows_add :: "table \<Rightarrow> obj \<Rightarrow> (error + val) \<times> table" where
  "Rows_add t rowData =
     (let arr = js_set (fill_row (columns t) rowData) 0 (VNum (nextId t));
          t1 = t\<lparr>nextId := nextId t + 1\<rparr>;
          (err, maps) = add_loop (columns t) arr 0 (unique t) (uniqueMaps t)
      in case err of
           Some e \<Rightarrow> (Inl e, t1\<lparr>uniqueMaps := maps\<rparr>)
         | None \<Rightarrow> (Inr (VNum (nextId t)), t1\<lparr>uniqueMaps := maps, data := data t @ [arr]\<rparr>))"

definition Rows_get :: "table \<Rightarrow> val \<Rightarrow> val list option" where
  "Rows_get t ident = find (\<lambda>r. js_nth r 0 = ident) (data t)"

text \<open>Replace the row object \<open>Rows.get\<close> returns: the first one carrying the id.\<close>

fun set_row :: "val \<Rightarrow> val list \<Rightarrow> val list list \<Rightarrow> val list list" where
  "set_row ident new [] = []"
| "set_row ident new (r # rs) =
     (if js_nth r 0 = ident then new # rs else r # set_row ident new rs)"

definition apply_updates :: "string list \<Rightarrow> obj \<Rightarrow> val list \<Rightarrow> val list" where
  "apply_updates names updates row =
     fold (\<lambda>key arr. let idx = getIndex names key in
                       if idx > 0 then js_set arr (nat idx) (obj_get updates key) else arr)
          (keys updates) row"

text \<open>
  The constraint loop of \<open>Rows.update\<close>. A collision stops it with the maps of
  the constraints before it already rewritten.
\<close>

fun update_loop ::
  "string list \<Rightarrow> val list \<Rightarrow> val list \<Rightarrow> nat \<Rightarrow> string list list \<Rightarrow> string set list \<Rightarrow>
   error option \<times> string set list" where
  "update_loop names oldData newData i [] maps = (None, maps)"
| "update_loop names oldData newData i (uc # ucs) maps =
     (let oldKey = getUniqueKey names oldData uc;
          newKey = getUniqueKey names newData uc
      in if newKey = oldKey then update_loop names oldData newData (Suc i) ucs maps
         else if length maps \<le> i then (Some TypeError, maps)
         else if newKey \<in> maps ! i then (Some (UniqueViolation uc), maps)
         else update_loop names oldData newData (Suc i) ucs
                (maps[i := insert newKey (maps ! i - {oldKey})]))"

text \<open>
  \<open>Rows.update\<close>. The row is written in place before the loop; the collision
  branch puts the copy taken before back (\<open>row.data = oldData\<close>), a TypeError
  leaves the written row.
\<close>

definition Rows_update :: "table \<Rightarrow> val \<Rightarrow> obj \<Rightarrow> error option \<times> table" where
  "Rows_update t ident updates =
     (case Rows_get t ident of
        None \<Rightarrow> (None, t)
      | Some oldData \<Rightarrow>
          let newData = apply_updates (columns t) updates oldData;
              (err, maps) = update_loop (columns t) oldData newData 0 (unique t) (uniqueMaps t)
          in case err of
               Some (UniqueViolation uc) \<Rightarrow> (Some (UniqueViolation uc), t\<lparr>uniqueMaps := maps\<rparr>)
             | Some e \<Rightarrow> (Some e, t\<lparr>uniqueMaps := maps, data := set_row ident newData (data t)\<rparr>)
             | None \<Rightarrow> (None, t\<lparr>uniqueMaps := maps, data := set_row ident newData (data t)\<rparr>))"

fun delete_loop ::
  "string list \<Rightarrow> val list \<Rightarrow> nat \<Rightarrow> string list list \<Rightarrow> string set list \<Rightarrow>
   error option \<times> string set list" where
  "delete_loop names row i [] maps = (None, maps)"
| "delete_loop names row i (uc # ucs) maps =
     (if length maps \<le> i then (Some TypeError, maps)
      else delete_loop names row (Suc i) ucs (maps[i := maps ! i - {getUniqueKey names row uc}]))"

definition Rows_delete :: "table \<Rightarrow> val \<Rightarrow> error option \<times> table" where
  "Rows_delete t ident =
     (case Rows_get t ident of
        None \<Rightarrow> (None, t)
      | Some row \<Rightarrow>
          let (err, maps) = delete_loop (columns t) row 0 (unique t) (uniqueMaps t)
          in case err of
               Some e \<Rightarrow> (Some e, t\<lparr>uniqueMaps := maps\<rparr>)
             | None \<Rightarrow> (None, t\<lparr>uniqueMaps := maps,
                                 data := filter (\<lambda>r. js_nth r 0 \<noteq> ident) (data t)\<rparr>))"

text \<open>\<open>Rows.find\<close>: a filter key that is no column constrains nothing.\<close>

definition row_matches :: "string list \<Rightarrow> obj \<Rightarrow> val list \<Rightarrow> bool" where
  "row_matches names flt r =
     list_all (\<lambda>key. let idx = getIndex names key in
                       \<not> (idx > - 1 \<and> js_nth r idx \<noteq> obj_get flt key)) (keys flt)"

definition Rows_find :: "table \<Rightarrow> obj \<Rightarrow> val list list" where
  "Rows_find t flt = filter (row_matches (columns t) flt) (data t)"

section \<open>Operation sequences on one table\<close>

datatype op = Create obj | Update val obj | Delete val

fun step :: "table \<Rightarrow> op \<Rightarrow> table" where
  "step t (Create ob) = snd (Rows_add t ob)"
| "step t (Update ident ob) = snd (Rows_update t ident ob)"
| "step t (Delete ident) = snd (Rows_delete t ident)"

text \<open>The identities the successful creates of a run return, in order.\<close>

fun created_ids :: "table \<Rightarrow> op list \<Rightarrow> int list" where
  "created_ids t [] = []"
| "created_ids t (Create ob # ops) =
     (case Rows_add t ob of
        (Inr (VNum n), t') \<Rightarrow> n # created_ids t' ops
      | (_, t') \<Rightarrow> created_ids t' ops)"
| "created_ids t (Update ident ob # ops) = created_ids (step t (Update ident ob)) ops"
| "created_ids t (Delete ident # ops) = created_ids (step t (Delete ident)) ops"

section \<open>Example tables\<close>

text \<open>
  The table of the spec's scenario: \<open>new Table('tblT', ['id','x','y'], [['x','y']])\<close>,
  one constraint, unique on \<open>(x, y)\<close>.
\<close>

definition xy_table :: table where
  "xy_table = \<lparr>tname = ''tblT'', columns = [''id'', ''x'', ''y''], unique = [[''x'', ''y'']],
      data = [], nextId = 1, uniqueMaps = [{}]\<rparr>"

definition xy_12 :: obj where
  "xy_12 = [(''x'', VNum 1), (''y'', VNum 2)]"

definition xy_34 :: obj where
  "xy_34 = [(''x'', VNum 3), (''y'', VNum 4)]"

section \<open>Well-formed tables\<close>

text \<open>
  The state the row store is meant to be in: the identities of the live rows are
  pairwise distinct numbers below the counter, and for every unique constraint
  the index map holds exactly the keys of the live rows, each once.
\<close>

definition keys_of :: "table \<Rightarrow> string list \<Rightarrow> string list" where
  "keys_of t uc = map (\<lambda>r. getUniqueKey (columns t) r uc) (data t)"

definition index_consistent :: "table \<Rightarrow> bool" where
  "index_consistent t \<longleftrightarrow>
     length (uniqueMaps t) = length (unique t) \<and>
     (\<forall>i < length (unique t).
        uniqueMaps t ! i = set (keys_of t (unique t ! i)) \<and> distinct (keys_of t (unique t ! i)))"

definition ids_fresh :: "table \<Rightarrow> bool" where
  "ids_fresh t \<longleftrightarrow>
     distinct (map (\<lambda>r. js_nth r 0) (data t)) \<and>
     (\<forall>r \<in> set (data t). \<exists>n. js_nth r 0 = VNum n \<and> n < nextId t)"

definition wf_table :: "table \<Rightarrow> bool" where
  "wf_table t \<longleftrightarrow> ids_fresh t \<and> index_consistent t"

text \<open>A table with two unique constraints, one on \<open>x\<close> and one on \<open>y\<close>.\<close>

definition uv_table :: table where
  "uv_table = \<lparr>tname = ''tblU'', columns = [''id'', ''x'', ''y''], unique = [[''x''], [''y'']],
      data = [], nextId = 1, uniqueMaps = [{}, {}]\<rparr>"

definition uv :: "int \<Rightarrow> int \<Rightarrow> obj" where
  "uv a b = [(''x'', VNum a), (''y'', VNum b)]"

section \<open>Catalog and join views: classes \<open>Tables\<close> and \<open>View\<close>\<close>

text \<open>\<open>Tables.tables\<close>, an object keyed by the normalised table name.\<close>

type_synonym catalog = "string \<rightharpoonup> table"

definition Tables_getTable :: "catalog \<Rightarrow> string \<Rightarrow> table option" where
  "Tables_getTable cat name = cat (normalize name)"

record join_spec =
  rightTable :: string
  leftCol :: string
  rightCol :: string

record view =
  tableNames :: "string list"
  joins :: "join_spec list"

text \<open>The inner loop of \<open>View.getData\<close>: one left row against every right row.\<close>

fun join_rows :: "val list \<Rightarrow> int \<Rightarrow> int \<Rightarrow> val list list \<Rightarrow> val list list \<Rightarrow> val list list" where
  "join_rows leftRow li ri [] newResult = newResult"
| "join_rows leftRow li ri (rightRow # rest) newResult =
     join_rows leftRow li ri rest
       (if js_nth leftRow li = js_nth rightRow ri
        then newResult @ [leftRow @ drop 1 rightRow] else newResult)"

text \<open>The loop over the rows accumulated so far.\<close>

fun join_loop :: "int \<Rightarrow> int \<Rightarrow> val list list \<Rightarrow> val list list \<Rightarrow> val list list \<Rightarrow> val list list" where
  "join_loop li ri rightRows [] newResult = newResult"
| "join_loop li ri rightRows (leftRow # rest) newResult =
     join_loop li ri rightRows rest (join_rows leftRow li ri rightRows newResult)"

text \<open>
  The loop over the joins. A right table missing from the catalog is \<open>undefined\<close>,
  and reading its \<open>columns\<close> is a TypeError.
\<close>

fun getData_loop ::
  "catalog \<Rightarrow> join_spec list \<Rightarrow> string list \<Rightarrow> val list list \<Rightarrow>
   error + (string list \<times> val list list)" where
  "getData_loop cat [] currentColumns resultRows = Inr (currentColumns, resultRows)"
| "getData_loop cat (j # js) currentColumns resultRows =
     (case Tables_getTable cat (rightTable j) of
        None \<Rightarrow> Inl TypeError
      | Some rt \<Rightarrow>
          let leftColIdx = indexOf currentColumns (leftCol j);
              rightColIdx = getIndex (columns rt) (rightCol j);
              newColumns = currentColumns @
                 map (\<lambda>col. rightTable j @ ''.'' @ col) (drop 1 (columns rt));
              newResult = join_loop leftColIdx rightColIdx (data rt) resultRows []
          in getData_loop cat js newColumns newResult)"

text \<open>\<open>View.getData\<close>; the result is the \<open>Rowset\<close>'s column names and rows.\<close>

definition View_getData :: "catalog \<Rightarrow> view \<Rightarrow> error + (string list \<times> val list list)" where
  "View_getData cat v =
     (case tableNames v of
        [] \<Rightarrow> Inl TypeError
      | n # _ \<Rightarrow>
          (case Tables_getTable cat n of
             None \<Rightarrow> Inl TypeError
           | Some t \<Rightarrow> getData_loop cat (joins v) (columns t) (data t)))"

subsection \<open>The join as the specification words it\<close>

text \<open>The value of a row at a named column of the accumulated result.\<close>

definition cell :: "string list \<Rightarrow> val list \<Rightarrow> string \<Rightarrow> val" where
  "cell names row c = js_nth row (indexOf names c)"

text \<open>
  One join, from the specification: for every surviving left row and every right
  row, in left-major and right-minor order, keep the combination iff the left row's
  value at the left column equals the right row's value at the right column; the
  joined row is the left row followed by the right row's non-identity values.
\<close>

definition spec_join :: "string list \<Rightarrow> val list list \<Rightarrow> join_spec \<Rightarrow> table \<Rightarrow> val list list" where
  "spec_join names lefts j rt =
     concat (map (\<lambda>l. map (\<lambda>r. l @ tl r)
                          (filter (\<lambda>r. cell names l (leftCol j) = cell (columns rt) r (rightCol j))
                                  (data rt)))
                 lefts)"

text \<open>
  The whole view: all rows of the first table, then the joins in order, the new
  columns named \<open>table.column\<close>.
\<close>

fun spec_joins ::
  "string list \<Rightarrow> val list list \<Rightarrow> (join_spec \<times> table) list \<Rightarrow> string list \<times> val list list" where
  "spec_joins names rows [] = (names, rows)"
| "spec_joins names rows ((j, rt) # rest) =
     spec_joins (names @ map (\<lambda>c. rightTable j @ ''.'' @ c) (tl (columns rt)))
                (spec_join names rows j rt) rest"

definition spec_getData :: "table \<Rightarrow> (join_spec \<times> table) list \<Rightarrow> string list \<times> val list list" where
  "spec_getData first js = spec_joins (columns first) (data first) js"

text \<open>Tables \<open>A(id, x)\<close> and \<open>B(id, a_id)\<close> joined on \<open>A.id = B.a_id\<close>.\<close>

definition tblA :: table where
  "tblA = \<lparr>tname = ''tblA'', columns = [''id'', ''x''], unique = [],
      data = [[VNum 1, VStr ''p''], [VNum 2, VStr ''q''], [VNum 3, VStr ''r'']],
      nextId = 4, uniqueMaps = []\<rparr>"

definition tblB :: table where
  "tblB = \<lparr>tname = ''tblB'', columns = [''id'', ''a_id''], unique = [],
      data = [[VNum 1, VNum 3], [VNum 2, VNum 1], [VNum 3, VNum 3]],
      nextId = 4, uniqueMaps = []\<rparr>"

definition catAB :: catalog where
  "catAB = [''tblA'' \<mapsto> tblA, ''tblB'' \<mapsto> tblB]"

definition viewAB :: view where
  "viewAB = \<lparr>tableNames = [''A'', ''B''],
      joins = [\<lparr>rightTable = ''B'', leftCol = ''id'', rightCol = ''a_id''\<rparr>]\<rparr>"

section \<open>Database facade: class \<open>Database\<close>\<close>

text \<open>
  The facade looks the table up and calls its \<open>Rows\<close>; a table missing from the
  catalog is \<open>undefined\<close>, and reading \<open>table.rows\<close> is a TypeError. The table
  object is mutated in place, so the result is stored under the normalised name.
\<close>

definition Database_create :: "catalog \<Rightarrow> string \<Rightarrow> obj \<Rightarrow> (error + val) \<times> catalog" where
  "Database_create cat tableName rowData =
     (case Tables_getTable cat tableName of
        None \<Rightarrow> (Inl TypeError, cat)
      | Some t \<Rightarrow> (let (r, t') = Rows_add t rowData in (r, cat(normalize tableName \<mapsto> t'))))"

text \<open>\<open>Database.read(tableName, filter).toArray()\<close>, as the values of the rows.\<close>

definition Database_read :: "catalog \<Rightarrow> string \<Rightarrow> obj \<Rightarrow> error + val list list" where
  "Database_read cat tableName flt =
     (case Tables_getTable cat tableName of
        None \<Rightarrow> Inl TypeError
      | Some t \<Rightarrow> Inr (Rows_find t flt))"

definition Database_update :: "catalog \<Rightarrow> string \<Rightarrow> val \<Rightarrow> obj \<Rightarrow> error option \<times> catalog" where
  "Database_update cat tableName ident updates =
     (case Tables_getTable cat tableName of
        None \<Rightarrow> (Some TypeError, cat)
      | Some t \<Rightarrow> (let (r, t') = Rows_update t ident updates in (r, cat(normalize tableName \<mapsto> t'))))"

definition Database_delete :: "catalog \<Rightarrow> string \<Rightarrow> val \<Rightarrow> error option \<times> catalog" where
  "Database_delete cat tableName ident =
     (case Tables_getTable cat tableName of
        None \<Rightarrow> (Some TypeError, cat)
      | Some t \<Rightarrow> (let (r, t') = Rows_delete t ident in (r, cat(normalize tableName \<mapsto> t'))))"

section \<open>Integrity layer: \<open>Crud\<close>\<close>

text \<open>
  The metadata object of one table; every field is optional. \<open>foreignKeys\<close> maps a
  column to the table it references.
\<close>

record meta =
  primaryKey :: "string option"
  foreignKeys :: "(string \<times> string) list option"
  displayField :: "string option"
  children :: "string list option"

text \<open>
  \<open>Crud.metadata\<close>: an object keyed by table name, iterated with \<open>for ... in\<close> in
  insertion order. An assignment to an existing key keeps its place.
\<close>

type_synonym metadata = "(string \<times> meta) list"

fun alist_set :: "string \<Rightarrow> 'a \<Rightarrow> (string \<times> 'a) list \<Rightarrow> (string \<times> 'a) list" where
  "alist_set k v [] = [(k, v)]"
| "alist_set k v ((k', v') # rest) =
     (if k' = k then (k, v) # rest else (k', v') # alist_set k v rest)"

text \<open>
  \<open>Crud.define\<close>. It has no \<open>throw\<close> and does not read the database, so the
  result is always the metadata with the entry stored.
\<close>

definition Crud_define :: "metadata \<Rightarrow> string \<Rightarrow> meta \<Rightarrow> error + metadata" where
  "Crud_define md tableName m = Inr (alist_set (normalize tableName) m md)"

text \<open>\<open>Crud._pkOf\<close>: \<open>meta.primaryKey || 'id'\<close>, the empty string being falsy.\<close>

definition Crud_pkOf :: "metadata \<Rightarrow> string \<Rightarrow> string" where
  "Crud_pkOf md tableName =
     (case map_of md (normalize tableName) of
        None \<Rightarrow> ''id''
      | Some m \<Rightarrow> (case primaryKey m of
                     None \<Rightarrow> ''id''
                   | Some pk \<Rightarrow> if pk = [] then ''id'' else pk))"

text \<open>
  The validation loop of \<open>Crud.create\<close> over the declared foreign-key columns:
  a value \<open>obj[col]\<close> that is \<open>null\<close> or \<open>undefined\<close> is skipped, any other must be
  found by \<open>db.read(fkTable, {[pk]: val})\<close>.
\<close>

fun validate_fks ::
  "metadata \<Rightarrow> catalog \<Rightarrow> (string \<times> string) list \<Rightarrow> string list \<Rightarrow> obj \<Rightarrow> error option" where
  "validate_fks md cat fks [] ob = None"
| "validate_fks md cat fks (col # cols) ob =
     (case map_of fks col of
        None \<Rightarrow> Some TypeError
      | Some fkTable \<Rightarrow>
          let v = obj_get ob col in
          if is_nullish v then validate_fks md cat fks cols ob
          else (case Database_read cat fkTable [(Crud_pkOf md fkTable, v)] of
                  Inl e \<Rightarrow> Some e
                | Inr rows \<Rightarrow>
                    if rows = [] then Some (ForeignKeyViolation fkTable col v)
                    else validate_fks md cat fks cols ob))"

definition Crud_create :: "metadata \<Rightarrow> catalog \<Rightarrow> string \<Rightarrow> obj \<Rightarrow> (error + val) \<times> catalog" where
  "Crud_create md cat tableName ob =
     (let tn = normalize tableName;
          err = (case map_of md tn of
                   None \<Rightarrow> None
                 | Some m \<Rightarrow> (case foreignKeys m of
                                None \<Rightarrow> None
                              | Some fks \<Rightarrow> validate_fks md cat fks (map fst fks) ob))
      in case err of
           Some e \<Rightarrow> (Inl e, cat)
         | None \<Rightarrow> Database_create cat tn ob)"

text \<open>
  \<open>Crud.update\<close>: the primary key is dropped from the updates when its value is
  truthy, and the rest goes to \<open>db.update\<close>. No foreign key is looked at.
\<close>

definition Crud_update :: "metadata \<Rightarrow> catalog \<Rightarrow> string \<Rightarrow> val \<Rightarrow> obj \<Rightarrow> error option \<times> catalog" where
  "Crud_update md cat tableName ident updates =
     (let tn = normalize tableName;
          pk = Crud_pkOf md tn;
          updates' = (if truthy (obj_get updates pk) then filter (\<lambda>kv. fst kv \<noteq> pk) updates
                      else updates)
      in Database_update cat tn ident updates')"

subsection \<open>Cascading delete\<close>

text \<open>
  \<open>Crud.delete\<close> calls itself for every row that references the one to delete, with
  nothing to stop it on a cycle. The model counts the depth of the recursion: the
  result is \<open>None\<close> when the depth allowed is used up, so that a call that recurses
  forever is one that returns \<open>None\<close> at every depth. Otherwise it is the error
  thrown, if any, and the catalog as the call left it.
\<close>

type_synonym outcome = "(error option \<times> catalog) option"

text \<open>\<open>for (let r of rows) this.delete(t, r[0])\<close>\<close>

fun delete_rows ::
  "(catalog \<Rightarrow> string \<Rightarrow> val \<Rightarrow> outcome) \<Rightarrow> string \<Rightarrow> val list list \<Rightarrow> catalog \<Rightarrow> outcome" where
  "delete_rows self t [] cat = Some (None, cat)"
| "delete_rows self t (r # rs) cat =
     (case self cat t (js_nth r 0) of
        None \<Rightarrow> None
      | Some (Some e, cat') \<Rightarrow> Some (Some e, cat')
      | Some (None, cat') \<Rightarrow> delete_rows self t rs cat')"

text \<open>The loop over the foreign-key columns of one metadata entry \<open>t\<close>.\<close>

fun delete_cols ::
  "(catalog \<Rightarrow> string \<Rightarrow> val \<Rightarrow> outcome) \<Rightarrow> string \<Rightarrow> val \<Rightarrow> string \<Rightarrow>
   (string \<times> string) list \<Rightarrow> string list \<Rightarrow> catalog \<Rightarrow> outcome" where
  "delete_cols self tableName ident t fks [] cat = Some (None, cat)"
| "delete_cols self tableName ident t fks (col # cols) cat =
     (if map_of fks col = Some tableName then
        (case Database_read cat t [(col, ident)] of
           Inl e \<Rightarrow> Some (Some e, cat)
         | Inr rows \<Rightarrow>
             (case delete_rows self t rows cat of
                None \<Rightarrow> None
              | Some (Some e, cat') \<Rightarrow> Some (Some e, cat')
              | Some (None, cat') \<Rightarrow> delete_cols self tableName ident t fks cols cat'))
      else delete_cols self tableName ident t fks cols cat)"

text \<open>The loop over the metadata entries.\<close>

fun delete_tables ::
  "(catalog \<Rightarrow> string \<Rightarrow> val \<Rightarrow> outcome) \<Rightarrow> string \<Rightarrow> val \<Rightarrow> metadata \<Rightarrow> catalog \<Rightarrow> outcome" where
  "delete_tables self tableName ident [] cat = Some (None, cat)"
| "delete_tables self tableName ident ((t, childMeta) # rest) cat =
     (case foreignKeys childMeta of
        None \<Rightarrow> delete_tables self tableName ident rest cat
      | Some fks \<Rightarrow>
          (case delete_cols self tableName ident t fks (map fst fks) cat of
             None \<Rightarrow> None
           | Some (Some e, cat') \<Rightarrow> Some (Some e, cat')
           | Some (None, cat') \<Rightarrow> delete_tables self tableName ident rest cat'))"

fun Crud_delete :: "nat \<Rightarrow> metadata \<Rightarrow> catalog \<Rightarrow> string \<Rightarrow> val \<Rightarrow> outcome" where
  "Crud_delete 0 md cat tableName ident = None"
| "Crud_delete (Suc depth) md cat tableName ident =
     (case delete_tables (\<lambda>c t i. Crud_delete depth md c t i) (normalize tableName) ident md cat of
        None \<Rightarrow> None
      | Some (Some e, cat') \<Rightarrow> Some (Some e, cat')
      | Some (None, cat') \<Rightarrow> Some (Database_delete cat' (normalize tableName) ident))"

section \<open>The players and games of the specification's scenario\<close>

definition tblPlayers :: table where
  "tblPlayers = \<lparr>tname = ''tblPlayers'', columns = [''id'', ''Name''], unique = [],
      data = [[VNum 5, VStr ''Roger''], [VNum 6, VStr ''Alan'']], nextId = 7, uniqueMaps = []\<rparr>"

definition tblGames :: table where
  "tblGames = \<lparr>tname = ''tblGames'', columns = [''id'', ''player1_id'', ''player2_id''], unique = [],
      data = [[VNum 1, VNum 5, VNum 6], [VNum 2, VNum 5, VNum 6], [VNum 3, VNum 6, VNum 6]],
      nextId = 4, uniqueMaps = []\<rparr>"

definition dice_db :: catalog where
  "dice_db = [''tblPlayers'' \<mapsto> tblPlayers, ''tblGames'' \<mapsto> tblGames]"

definition players_meta :: meta where
  "players_meta = \<lparr>primaryKey = Some ''id'', foreignKeys = None, displayField = Some ''Name'',
      children = None\<rparr>"

definition games_meta :: meta where
  "games_meta = \<lparr>primaryKey = Some ''id'',
      foreignKeys = Some [(''player1_id'', ''tblPlayers''), (''player2_id'', ''tblPlayers'')],
      displayField = None, children = None\<rparr>"

definition dice_md :: metadata where
  "dice_md = [(''tblPlayers'', players_meta), (''tblGames'', games_meta)]"

text \<open>Metadata whose foreign key points at a table the catalog does not have.\<close>

definition stray_meta :: meta where
  "stray_meta = \<lparr>primaryKey = None, foreignKeys = Some [(''player1_id'', ''tblNowhere'')],
      displayField = None, children = None\<rparr>"

text \<open>Metadata whose foreign-key column is not a column of \<open>tblGames\<close>.\<close>

definition owner_meta :: meta where
  "owner_meta = \<lparr>primaryKey = None, foreignKeys = Some [(''owner_id'', ''tblPlayers'')],
      displayField = None, children = None\<rparr>"

section \<open>Two tables whose foreign keys point at each other\<close>

text \<open>
  \<open>tblA(id, b_id)\<close> references \<open>tblB\<close> and \<open>tblB(id, a_id)\<close> references \<open>tblA\<close>;
  row 1 of each references row 1 of the other. Every reference is to a live row.
\<close>

definition cyc_A :: table where
  "cyc_A = \<lparr>tname = ''tblA'', columns = [''id'', ''b_id''], unique = [],
      data = [[VNum 1, VNum 1]], nextId = 2, uniqueMaps = []\<rparr>"

definition cyc_B :: table where
  "cyc_B = \<lparr>tname = ''tblB'', columns = [''id'', ''a_id''], unique = [],
      data = [[VNum 1, VNum 1]], nextId = 2, uniqueMaps = []\<rparr>"

definition cyc_db :: catalog where
  "cyc_db = [''tblA'' \<mapsto> cyc_A, ''tblB'' \<mapsto> cyc_B]"

definition cyc_md :: metadata where
  "cyc_md =
     [(''tblA'', \<lparr>primaryKey = None, foreignKeys = Some [(''b_id'', ''tblB'')],
                  displayField = None, children = None\<rparr>),
      (''tblB'', \<lparr>primaryKey = None, foreignKeys = Some [(''a_id'', ''tblA'')],
                  displayField = None, children = None\<rparr>)]"

section \<open>Rows as shared arrays\<close>

text \<open>
  \<open>Rowset.toArray\<close> returns \<open>row.data\<close> of every row, the array itself, and
  \<open>Rows.update\<close> writes into that array. Whether a caller sees the write depends
  on the sharing, so here the arrays live in a store: \<open>r_heap\<close> gives the
  contents of the array at an address, \<open>r_next\<close> is the first address not yet
  allocated, and \<open>r_data\<close> lists, row by row, the address \<open>row.data\<close> points to.
\<close>

record rstore =
  r_name :: string
  r_columns :: "string list"
  r_unique :: "string list list"
  r_heap :: "nat \<Rightarrow> val list"
  r_next :: nat
  r_data :: "nat list"
  r_nextId :: int
  r_uniqueMaps :: "string set list"

text \<open>The table of values a store stands for.\<close>

definition abs_table :: "rstore \<Rightarrow> table" where
  "abs_table st = \<lparr>tname = r_name st, columns = r_columns st, unique = r_unique st,
      data = map (r_heap st) (r_data st), nextId = r_nextId st, uniqueMaps = r_uniqueMaps st\<rparr>"

text \<open>\<open>Rows.get\<close>, as the address of the array of the row found.\<close>

definition ref_get :: "rstore \<Rightarrow> val \<Rightarrow> nat option" where
  "ref_get st ident = find (\<lambda>a. js_nth (r_heap st a) 0 = ident) (r_data st)"

text \<open>\<open>Database.read(name, filter).toArray()\<close>: the addresses of the matching rows' arrays.\<close>

definition ref_read :: "rstore \<Rightarrow> obj \<Rightarrow> nat list" where
  "ref_read st flt = filter (\<lambda>a. row_matches (r_columns st) flt (r_heap st a)) (r_data st)"

text \<open>\<open>row.data = oldData\<close> on the row object \<open>Rows.get\<close> found.\<close>

fun set_ref :: "(nat \<Rightarrow> val list) \<Rightarrow> val \<Rightarrow> nat \<Rightarrow> nat list \<Rightarrow> nat list" where
  "set_ref h ident c [] = []"
| "set_ref h ident c (a # as) =
     (if js_nth (h a) 0 = ident then c # as else a # set_ref h ident c as)"

text \<open>
  \<open>Rows.update\<close> on the store. \<open>oldData = [...row.data]\<close> allocates the copy at
  \<open>r_next\<close>; the loop over the updates then writes into the row's own array. On a
  collision the row object is pointed at the copy, and the array written to stays
  as written.
\<close>

definition ref_update :: "rstore \<Rightarrow> val \<Rightarrow> obj \<Rightarrow> error option \<times> rstore" where
  "ref_update st ident updates =
     (case ref_get st ident of
        None \<Rightarrow> (None, st)
      | Some a \<Rightarrow>
          let oldData = r_heap st a;
              c = r_next st;
              newData = apply_updates (r_columns st) updates oldData;
              h = (r_heap st)(c := oldData, a := newData);
              (err, maps) = update_loop (r_columns st) oldData newData 0 (r_unique st)
                              (r_uniqueMaps st);
              st1 = st\<lparr>r_heap := h, r_next := Suc c, r_uniqueMaps := maps\<rparr>
          in case err of
               Some (UniqueViolation uc) \<Rightarrow>
                 (Some (UniqueViolation uc),
                  st1\<lparr>r_data := set_ref (r_heap st) ident c (r_data st)\<rparr>)
             | Some e \<Rightarrow> (Some e, st1)
             | None \<Rightarrow> (None, st1))"

text \<open>\<open>Rows.delete\<close> on the store: the list of rows is filtered, no array is written.\<close>

definition ref_delete :: "rstore \<Rightarrow> val \<Rightarrow> error option \<times> rstore" where
  "ref_delete st ident =
     (case ref_get st ident of
        None \<Rightarrow> (None, st)
      | Some a \<Rightarrow>
          let (err, maps) = delete_loop (r_columns st) (r_heap st a) 0 (r_unique st)
                              (r_uniqueMaps st)
          in case err of
               Some e \<Rightarrow> (Some e, st\<lparr>r_uniqueMaps := maps\<rparr>)
             | None \<Rightarrow> (None, st\<lparr>r_uniqueMaps := maps,
                 r_data := filter (\<lambda>a. js_nth (r_heap st a) 0 \<noteq> ident) (r_data st)\<rparr>))"

text \<open>\<open>Rows.add\<close> on the store: the new row's array is allocated at \<open>r_next\<close>.\<close>

definition ref_add :: "rstore \<Rightarrow> obj \<Rightarrow> (error + val) \<times> rstore" where
  "ref_add st rowData =
     (let arr = js_set (fill_row (r_columns st) rowData) 0 (VNum (r_nextId st));
          c = r_next st;
          st1 = st\<lparr>r_heap := (r_heap st)(c := arr), r_next := Suc c, r_nextId := r_nextId st + 1\<rparr>;
          (err, maps) = add_loop (r_columns st) arr 0 (r_unique st) (r_uniqueMaps st)
      in case err of
           Some e \<Rightarrow> (Inl e, st1\<lparr>r_uniqueMaps := maps\<rparr>)
         | None \<Rightarrow> (Inr (VNum (r_nextId st)), st1\<lparr>r_uniqueMaps := maps, r_data := r_data st @ [c]\<rparr>))"

text \<open>Every row has an array of its own, allocated below \<open>r_next\<close>.\<close>

definition store_ok :: "rstore \<Rightarrow> bool" where
  "store_ok st \<longleftrightarrow> distinct (r_data st) \<and> list_all (\<lambda>a. a < r_next st) (r_data st)"

text \<open>The table of the scenario with its first row, as a store.\<close>

definition xy_store :: rstore where
  "xy_store = \<lparr>r_name = ''tblT'', r_columns = [''id'', ''x'', ''y''], r_unique = [[''x'', ''y'']],
      r_heap = (\<lambda>_. [])(0 := [VNum 1, VNum 1, VNum 2], 1 := [VNum 2, VNum 3, VNum 4]),
      r_next = 2, r_data = [0, 1], r_nextId = 3, r_uniqueMaps = [{''1::2'', ''3::4''}]\<rparr>"

section \<open>Dependent rows\<close>

text \<open>A row is named by its table and its identity.\<close>

type_synonym node = "string \<times> val"

text \<open>
  The rows of the table registered as \<open>t\<close> that hold \<open>ident\<close> in their column
  \<open>col\<close>. A table without that column has no such row.
\<close>

definition fk_children :: "catalog \<Rightarrow> string \<Rightarrow> string \<Rightarrow> val \<Rightarrow> node set" where
  "fk_children cat t col ident =
     {(normalize t, js_nth r 0) | r tab.
        cat (normalize t) = Some tab \<and> r \<in> set (data tab) \<and>
        0 \<le> getIndex (columns tab) col \<and> js_nth r (getIndex (columns tab) col) = ident}"

text \<open>
  A row depends directly on a parent when its table declares a foreign-key column
  whose target names the parent's table, bare or prefixed as the catalog accepts
  table names, and the row holds the parent's identity there. \<open>null\<close> and
  \<open>undefined\<close> are no identity: an empty foreign-key cell references nothing. The
  dependents of a row are the rows that depend on it directly or through other rows.
\<close>

definition references :: "metadata \<Rightarrow> catalog \<Rightarrow> node \<Rightarrow> node \<Rightarrow> bool" where
  "references md cat parent child \<longleftrightarrow>
     \<not> is_nullish (snd parent) \<and>
     (\<exists>t m fks col target. (t, m) \<in> set md \<and> foreignKeys m = Some fks \<and>
        map_of fks col = Some target \<and> normalize target = fst parent \<and>
        child \<in> fk_children cat t col (snd parent))"

definition dependents :: "metadata \<Rightarrow> catalog \<Rightarrow> node \<Rightarrow> node set" where
  "dependents md cat root = {x. (references md cat)\<^sup>+\<^sup>+ root x}"

text \<open>
  What \<open>Crud.delete\<close> follows from the row it is called on: the test
  \<open>childMeta.foreignKeys[col] === tableName\<close> compares the target as declared with
  the normalised name of the parent's table, and the read that comes next selects on
  whatever identity the call was given. \<open>cascaded\<close> collects the rows so reached.
\<close>

definition visits :: "metadata \<Rightarrow> catalog \<Rightarrow> node \<Rightarrow> node \<Rightarrow> bool" where
  "visits md cat parent child \<longleftrightarrow>
     (\<exists>t m fks col. (t, m) \<in> set md \<and> foreignKeys m = Some fks \<and>
        map_of fks col = Some (fst parent) \<and> child \<in> fk_children cat t col (snd parent))"

definition cascaded :: "metadata \<Rightarrow> catalog \<Rightarrow> node \<Rightarrow> node set" where
  "cascaded md cat root = {x. (visits md cat)\<^sup>+\<^sup>+ root x}"

text \<open>
  Metadata that writes every foreign-key target with the prefix, and catalogs in
  which every row carries an identity.
\<close>

definition targets_prefixed :: "metadata \<Rightarrow> bool" where
  "targets_prefixed md \<longleftrightarrow>
     (\<forall>t m fks col target. (t, m) \<in> set md \<longrightarrow> foreignKeys m = Some fks \<longrightarrow>
        (col, target) \<in> set fks \<longrightarrow> normalize target = target)"

definition ids_present :: "catalog \<Rightarrow> bool" where
  "ids_present cat \<longleftrightarrow>
     (\<forall>tn tab r. cat tn = Some tab \<longrightarrow> r \<in> set (data tab) \<longrightarrow> \<not> is_nullish (js_nth r 0))"

text \<open>A table that kept its columns, its constraints and the number of its index maps.\<close>

definition same_shape :: "table \<Rightarrow> table \<Rightarrow> bool" where
  "same_shape tab tab' \<longleftrightarrow>
     columns tab' = columns tab \<and> unique tab' = unique tab \<and>
     length (uniqueMaps tab') = length (uniqueMaps tab)"

text \<open>
  \<open>removed cat cat' S\<close>: the second catalog is the first without the rows named
  in \<open>S\<close>. It has the same tables of the same shape, and every other row is still
  there, in its place.
\<close>

definition removed :: "catalog \<Rightarrow> catalog \<Rightarrow> node set \<Rightarrow> bool" where
  "removed cat cat' S \<longleftrightarrow>
     (\<forall>tn. case cat tn of
              None \<Rightarrow> cat' tn = None
            | Some tab \<Rightarrow>
                (case cat' tn of
                   None \<Rightarrow> False
                 | Some tab' \<Rightarrow> same_shape tab tab' \<and>
                     data tab' = filter (\<lambda>r. (tn, js_nth r 0) \<notin> S) (data tab)))"

text \<open>Every declared foreign-key column is a column of the table that declares it.\<close>

definition fk_columns_exist :: "metadata \<Rightarrow> catalog \<Rightarrow> bool" where
  "fk_columns_exist md cat \<longleftrightarrow>
     (\<forall>t m fks col tab. (t, m) \<in> set md \<longrightarrow> foreignKeys m = Some fks \<longrightarrow>
        col \<in> set (map fst fks) \<longrightarrow> cat (normalize t) = Some tab \<longrightarrow>
        0 \<le> getIndex (columns tab) col)"

text \<open>The rows reachable from a set of rows, and sets closed under dependency.\<close>

definition reach :: "metadata \<Rightarrow> catalog \<Rightarrow> node set \<Rightarrow> node set" where
  "reach md cat Y = {z. \<exists>y \<in> Y. (visits md cat)\<^sup>*\<^sup>* y z}"

definition closed :: "metadata \<Rightarrow> catalog \<Rightarrow> node set \<Rightarrow> bool" where
  "closed md cat S \<longleftrightarrow> (\<forall>x y. x \<in> S \<longrightarrow> visits md cat x y \<longrightarrow> y \<in> S)"

text \<open>
  What the loops of \<open>Crud.delete\<close> need of the recursive call: when it returns
  normally it has removed the row it was given and everything reachable from it.
\<close>

definition self_ok :: "metadata \<Rightarrow> (catalog \<Rightarrow> string \<Rightarrow> val \<Rightarrow> outcome) \<Rightarrow> bool" where
  "self_ok md self \<longleftrightarrow>
     (\<forall>c t j c'. fk_columns_exist md c \<longrightarrow> self c t j = Some (None, c') \<longrightarrow>
        removed c c' (reach md c {(normalize t, j)}))"

text \<open>The direct dependents the column loop and the table loop still have to visit.\<close>

definition kids_cols ::
  "catalog \<Rightarrow> string \<Rightarrow> val \<Rightarrow> string \<Rightarrow> (string \<times> string) list \<Rightarrow> string list \<Rightarrow> node set" where
  "kids_cols c T i t fks cols =
     {y. \<exists>col \<in> set cols. map_of fks col = Some T \<and> y \<in> fk_children c t col i}"

definition kids_tabs :: "catalog \<Rightarrow> string \<Rightarrow> val \<Rightarrow> metadata \<Rightarrow> node set" where
  "kids_tabs c T i entries =
     {y. \<exists>t m fks. (t, m) \<in> set entries \<and> foreignKeys m = Some fks \<and>
           y \<in> kids_cols c T i t fks (map fst fks)}"

text \<open>The scenario's metadata with the foreign key declared on a column that is not there.\<close>

definition owner_md :: metadata where
  "owner_md = [(''tblPlayers'', players_meta), (''tblGames'', owner_meta)]"

text \<open>
  One recursive call extends another when it returns whatever the other returns.
\<close>

definition extends_to ::
  "(catalog \<Rightarrow> string \<Rightarrow> val \<Rightarrow> outcome) \<Rightarrow> (catalog \<Rightarrow> string \<Rightarrow> val \<Rightarrow> outcome) \<Rightarrow> bool" where
  "extends_to self self' \<longleftrightarrow> (\<forall>c t j r. self c t j = Some r \<longrightarrow> self' c t j = Some r)"

text \<open>
  Conditions under which no step of the cascade throws: every table that declares
  foreign keys is in the catalog, and every table has an index map for each of its
  constraints.
\<close>

definition tables_exist :: "metadata \<Rightarrow> catalog \<Rightarrow> bool" where
  "tables_exist md cat \<longleftrightarrow>
     (\<forall>t m. (t, m) \<in> set md \<longrightarrow> foreignKeys m \<noteq> None \<longrightarrow> cat (normalize t) \<noteq> None)"

definition aligned :: "catalog \<Rightarrow> bool" where
  "aligned cat \<longleftrightarrow>
     (\<forall>tn tab. cat tn = Some tab \<longrightarrow> length (unique tab) \<le> length (uniqueMaps tab))"

text \<open>The recursive call returns normally on the rows of \<open>Ch\<close>, whatever was removed before.\<close>

definition succeeds_on ::
  "metadata \<Rightarrow> catalog \<Rightarrow> (catalog \<Rightarrow> string \<Rightarrow> val \<Rightarrow> outcome) \<Rightarrow> node set \<Rightarrow> bool" where
  "succeeds_on md cat self Ch \<longleftrightarrow>
     (\<forall>c S t j. removed cat c S \<longrightarrow> closed md cat S \<longrightarrow> (normalize t, j) \<in> Ch \<longrightarrow>
        (\<exists>c'. self c t j = Some (None, c')))"

text \<open>
  The scenario's metadata with the foreign keys of \<open>Games\<close> declared against the
  bare name \<open>Players\<close>, as the specification writes them.
\<close>

definition bare_meta :: meta where
  "bare_meta = \<lparr>primaryKey = Some ''id'',
      foreignKeys = Some [(''player1_id'', ''Players''), (''player2_id'', ''Players'')],
      displayField = None, children = None\<rparr>"

definition bare_md :: metadata where
  "bare_md = [(''tblPlayers'', players_meta), (''tblGames'', bare_meta)]"

text \<open>Metadata whose foreign-key column is named like a member of \<open>Object.prototype\<close>.\<close>

definition ctor_meta :: meta where
  "ctor_meta = \<lparr>primaryKey = None, foreignKeys = Some [(''constructor'', ''tblPlayers'')],
      displayField = None, children = None\<rparr>"

section \<open>Identity generation\<close>

lemma add_nextId: "nextId (snd (Rows_add t ob)) = nextId t + 1"
  by (simp add: Rows_add_def Let_def split: prod.splits option.splits)

lemma add_result: "Rows_add t ob = (Inr v, t') \<Longrightarrow> v = VNum (nextId t)"
  by (auto simp: Rows_add_def Let_def split: prod.splits option.splits)

lemma update_nextId: "nextId (snd (Rows_update t ident ob)) = nextId t"
  by (simp add: Rows_update_def Let_def split: prod.splits option.splits error.splits)

lemma delete_nextId: "nextId (snd (Rows_delete t ident)) = nextId t"
  by (simp add: Rows_delete_def Let_def split: prod.splits option.splits)

lemma step_nextId: "nextId t \<le> nextId (step t opn)"
  by (cases opn) (simp_all add: add_nextId update_nextId delete_nextId)

lemma created_ids_lower: "i \<in> set (created_ids t ops) \<Longrightarrow> nextId t \<le> i"
proof (induction t ops rule: created_ids.induct)
  case (1 t)
  then show ?case by simp
next
  case (2 t ob ops)
  obtain r t' where r: "Rows_add t ob = (r, t')" by (cases "Rows_add t ob")
  have n: "nextId t' = nextId t + 1" using add_nextId [of t ob] r by simp
  show ?case
  proof (cases r)
    case (Inl e)
    with 2 r n show ?thesis by fastforce
  next
    case (Inr v)
    then have v: "v = VNum (nextId t)" using add_result r by blast
    with 2 r n Inr show ?thesis by fastforce
  qed
next
  case (3 t ident ob ops)
  then show ?case using update_nextId [of t ident ob] by fastforce
next
  case (4 t ident ops)
  then show ?case using delete_nextId [of t ident] by fastforce
qed





section \<open>A failed create consumes an identity\<close>

lemma add_failed_data:
  "Rows_add t ob = (Inl e, t') \<Longrightarrow> data t' = data t \<and> nextId t' = nextId t + 1"
  by (auto simp: Rows_add_def Let_def split: prod.splits option.splits)

text \<open>
  Claim C10. When \<open>Rows.add\<close> throws the unique-constraint violation, no row has been
  inserted, yet the counter has advanced by one: the identity the failed call took
  is skipped for good, and every create that succeeds afterwards, whatever updates
  and deletes are interleaved, returns a strictly larger identity.
\<close>

theorem failed_create_skips_identity:
  assumes "Rows_add t ob = (Inl (UniqueViolation uc), t')"
  shows "data t' = data t \<and> nextId t' = nextId t + 1 \<and>
         (\<forall>i \<in> set (created_ids t' ops). nextId t < i)"
proof -
  have d: "data t' = data t \<and> nextId t' = nextId t + 1"
    using assms by (rule add_failed_data)
  have "\<forall>i \<in> set (created_ids t' ops). nextId t' \<le> i"
    using created_ids_lower by blast
  with d show ?thesis by fastforce
qed

theorem failed_create_skips_identity_witness:
  "Rows_add (snd (Rows_add xy_table xy_12)) xy_12 =
     (Inl (UniqueViolation [''x'', ''y'']),
      xy_table\<lparr>data := [[VNum 1, VNum 1, VNum 2]], nextId := 3, uniqueMaps := [{''1::2''}]\<rparr>) \<and>
   created_ids (xy_table\<lparr>data := [[VNum 1, VNum 1, VNum 2]], nextId := 3,
      uniqueMaps := [{''1::2''}]\<rparr>) [Create xy_34] = [3] \<and>
   nextId (snd (Rows_add xy_table xy_12)) < 3"
proof -
  let ?t' = "xy_table\<lparr>data := [[VNum 1, VNum 1, VNum 2]], nextId := 3, uniqueMaps := [{''1::2''}]\<rparr>"
  have a: "Rows_add (snd (Rows_add xy_table xy_12)) xy_12 =
     (Inl (UniqueViolation [''x'', ''y'']), ?t')"
    by code_simp
  have c: "created_ids ?t' [Create xy_34] = [3]"
    by code_simp
  show ?thesis
    using failed_create_skips_identity [OF a, of "[Create xy_34]"] a unfolding c by simp
qed

section \<open>Unique indices\<close>

lemma js_nth_js_set_0: "js_nth (js_set xs 0 v) 0 = v"
  by (cases xs) (simp_all add: js_nth_def js_set_def)

lemma add_loop_length: "add_loop names arr i ucs maps = (e, maps') \<Longrightarrow> length maps' = length maps"
  by (induction ucs arbitrary: i maps) (auto simp: Let_def split: if_splits)

lemma add_loop_ok:
  "add_loop names arr i ucs maps = (None, maps') \<Longrightarrow> j < length maps \<Longrightarrow>
   maps' ! j = (if i \<le> j \<and> j < i + length ucs
                then insert (getUniqueKey names arr (ucs ! (j - i))) (maps ! j) else maps ! j)"
proof (induction ucs arbitrary: i maps)
  case Nil
  then show ?case by auto
next
  case (Cons uc ucs)
  from Cons.prems have i: "i < length maps" and
    nin: "getUniqueKey names arr uc \<notin> maps ! i" and
    rec: "add_loop names arr (Suc i) ucs (maps[i := insert (getUniqueKey names arr uc) (maps ! i)]) = (None, maps')"
    by (auto simp: Let_def split: if_splits)
  have "maps' ! j = (if Suc i \<le> j \<and> j < Suc i + length ucs
                then insert (getUniqueKey names arr (ucs ! (j - Suc i))) ((maps[i := insert (getUniqueKey names arr uc) (maps ! i)]) ! j) else (maps[i := insert (getUniqueKey names arr uc) (maps ! i)]) ! j)"
    using Cons.IH [OF rec] Cons.prems(2) by simp
  then show ?case using i Cons.prems(2)
    by (cases "j = i") (auto simp: nth_Cons')
qed

lemma add_loop_fresh:
  "add_loop names arr i ucs maps = (None, maps') \<Longrightarrow> i \<le> j \<Longrightarrow> j < i + length ucs \<Longrightarrow>
   j < length maps \<and> getUniqueKey names arr (ucs ! (j - i)) \<notin> maps ! j"
proof (induction ucs arbitrary: i maps)
  case Nil
  then show ?case by simp
next
  case (Cons uc ucs)
  from Cons.prems have i: "i < length maps" and
    nin: "getUniqueKey names arr uc \<notin> maps ! i" and
    rec: "add_loop names arr (Suc i) ucs (maps[i := insert (getUniqueKey names arr uc) (maps ! i)]) = (None, maps')"
    by (auto simp: Let_def split: if_splits)
  show ?case
  proof (cases "j = i")
    case True
    then show ?thesis using i nin by simp
  next
    case False
    then have "Suc i \<le> j" "j < Suc i + length ucs" using Cons.prems by auto
    from Cons.IH [OF rec this] False Cons.prems(2) show ?thesis
      by (auto simp: nth_Cons')
  qed
qed

lemma add_success_wf:
  assumes wf: "wf_table t" and ok: "Rows_add t ob = (Inr v, t')"
  shows "wf_table t'"
proof -
  define arr where "arr = js_set (fill_row (columns t) ob) 0 (VNum (nextId t))"
  obtain maps where l: "add_loop (columns t) arr 0 (unique t) (uniqueMaps t) = (None, maps)"
    and t': "t' = t\<lparr>nextId := nextId t + 1, uniqueMaps := maps, data := data t @ [arr]\<rparr>"
    using ok by (auto simp: Rows_add_def Let_def arr_def split: prod.splits option.splits)
  have len: "length (uniqueMaps t) = length (unique t)"
    using wf by (simp add: wf_table_def index_consistent_def)
  have id0: "js_nth arr 0 = VNum (nextId t)" by (simp add: arr_def js_nth_js_set_0)
  have "ids_fresh t'"
    using wf id0 unfolding wf_table_def ids_fresh_def t' by fastforce
  moreover have "index_consistent t'"
    unfolding index_consistent_def
  proof (intro conjI allI impI)
    show "length (uniqueMaps t') = length (unique t')"
      using add_loop_length [OF l] len by (simp add: t')
  next
    fix i assume "i < length (unique t')"
    then have i: "i < length (unique t)" by (simp add: t')
    have m: "maps ! i = insert (getUniqueKey (columns t) arr (unique t ! i)) (uniqueMaps t ! i)"
      using add_loop_ok [OF l, of i] i len by simp
    have f: "getUniqueKey (columns t) arr (unique t ! i) \<notin> uniqueMaps t ! i"
      using add_loop_fresh [OF l, of i] i by simp
    have c: "uniqueMaps t ! i = set (keys_of t (unique t ! i))" "distinct (keys_of t (unique t ! i))"
      using wf i by (simp_all add: wf_table_def index_consistent_def)
    show "uniqueMaps t' ! i = set (keys_of t' (unique t' ! i))"
      using m c by (simp add: t' keys_of_def)
    show "distinct (keys_of t' (unique t' ! i))"
      using f c by (simp add: t' keys_of_def)
  qed
  ultimately show ?thesis by (simp add: wf_table_def)
qed


lemma update_loop_length:
  "update_loop names old new i ucs maps = (e, maps') \<Longrightarrow> length maps' = length maps"
  by (induction ucs arbitrary: i maps) (auto simp: Let_def split: if_splits)

lemma update_loop_ok:
  "update_loop names old new i ucs maps = (None, maps') \<Longrightarrow> j < length maps \<Longrightarrow>
   maps' ! j =
     (if i \<le> j \<and> j < i + length ucs \<and>
         getUniqueKey names new (ucs ! (j - i)) \<noteq> getUniqueKey names old (ucs ! (j - i))
      then insert (getUniqueKey names new (ucs ! (j - i)))
             (maps ! j - {getUniqueKey names old (ucs ! (j - i))})
      else maps ! j)"
proof (induction ucs arbitrary: i maps)
  case Nil
  then show ?case by auto
next
  case (Cons uc ucs)
  show ?case
  proof (cases "getUniqueKey names new uc = getUniqueKey names old uc")
    case True
    with Cons.prems have rec: "update_loop names old new (Suc i) ucs maps = (None, maps')"
      by (simp add: Let_def)
    from Cons.IH [OF rec Cons.prems(2)] True show ?thesis
      by (cases "j = i") (auto simp: nth_Cons')
  next
    case False
    with Cons.prems have i: "i < length maps" and
      rec: "update_loop names old new (Suc i) ucs
              (maps[i := insert (getUniqueKey names new uc) (maps ! i - {getUniqueKey names old uc})])
            = (None, maps')"
      by (auto simp: Let_def split: if_splits)
    from Cons.IH [OF rec] Cons.prems(2) False i show ?thesis
      by (cases "j = i") (auto simp: nth_Cons')
  qed
qed

lemma update_loop_fresh:
  "update_loop names old new i ucs maps = (None, maps') \<Longrightarrow> i \<le> j \<Longrightarrow> j < i + length ucs \<Longrightarrow>
   j < length maps \<Longrightarrow>
   getUniqueKey names new (ucs ! (j - i)) \<noteq> getUniqueKey names old (ucs ! (j - i)) \<Longrightarrow>
   getUniqueKey names new (ucs ! (j - i)) \<notin> maps ! j"
proof (induction ucs arbitrary: i maps)
  case Nil
  then show ?case by simp
next
  case (Cons uc ucs)
  show ?case
  proof (cases "j = i")
    case True
    with Cons.prems show ?thesis by (auto simp: Let_def split: if_splits)
  next
    case False
    then have j: "Suc i \<le> j" "j < Suc i + length ucs" using Cons.prems by auto
    have idx: "(uc # ucs) ! (j - i) = ucs ! (j - Suc i)" using False Cons.prems(2)
      by (simp add: nth_Cons')
    show ?thesis
    proof (cases "getUniqueKey names new uc = getUniqueKey names old uc")
      case True
      with Cons.prems have rec: "update_loop names old new (Suc i) ucs maps = (None, maps')"
        by (simp add: Let_def)
      from Cons.IH [OF rec j Cons.prems(4)] Cons.prems(5) idx show ?thesis by simp
    next
      case neq: False
      with Cons.prems have i: "i < length maps" and
        rec: "update_loop names old new (Suc i) ucs
                (maps[i := insert (getUniqueKey names new uc) (maps ! i - {getUniqueKey names old uc})])
              = (None, maps')"
        by (auto simp: Let_def split: if_splits)
      from Cons.IH [OF rec j] Cons.prems(4,5) idx False show ?thesis by simp
    qed
  qed
qed

lemma find_set_row:
  "find (\<lambda>r. js_nth r 0 = ident) rs = Some old \<Longrightarrow>
   \<exists>p < length rs. rs ! p = old \<and> set_row ident new rs = rs[p := new] \<and> js_nth old 0 = ident"
proof (induction rs)
  case Nil
  then show ?case by simp
next
  case (Cons r rs)
  show ?case
  proof (cases "js_nth r 0 = ident")
    case True
    with Cons.prems show ?thesis by auto
  next
    case False
    with Cons.prems have "find (\<lambda>r. js_nth r 0 = ident) rs = Some old" by simp
    from Cons.IH [OF this] obtain p where
      "p < length rs" "rs ! p = old" "set_row ident new rs = rs[p := new]" "js_nth old 0 = ident"
      by blast
    with False show ?thesis by (intro exI [of _ "Suc p"]) simp
  qed
qed

lemma js_nth_js_set_pos: "0 < k \<Longrightarrow> js_nth (js_set xs k v) 0 = js_nth xs 0"
  by (cases xs) (auto simp: js_nth_def js_set_def nth_append nth_Cons' split: nat.splits)

lemma apply_updates_id: "js_nth (apply_updates names updates row) 0 = js_nth row 0"
proof -
  have "js_nth (fold (\<lambda>key arr. let idx = getIndex names key in
                       if idx > 0 then js_set arr (nat idx) (obj_get updates key) else arr) ks row) 0
        = js_nth row 0" for ks
    by (induction ks arbitrary: row) (simp_all add: Let_def js_nth_js_set_pos)
  then show ?thesis by (simp add: apply_updates_def)
qed

lemma update_success_wf:
  assumes wf: "wf_table t" and ok: "Rows_update t ident ob = (None, t')"
  shows "wf_table t'"
proof (cases "Rows_get t ident")
  case None
  with ok wf show ?thesis by (simp add: Rows_update_def)
next
  case (Some old)
  define new where "new = apply_updates (columns t) ob old"
  obtain maps where l: "update_loop (columns t) old new 0 (unique t) (uniqueMaps t) = (None, maps)"
    and t': "t' = t\<lparr>uniqueMaps := maps, data := set_row ident new (data t)\<rparr>"
    using ok Some
    by (auto simp: Rows_update_def Let_def new_def split: prod.splits option.splits error.splits)
  from Some obtain p where p: "p < length (data t)" "data t ! p = old"
    and sr: "set_row ident new (data t) = (data t)[p := new]" and oid: "js_nth old 0 = ident"
    using find_set_row [of ident "data t" old new] by (auto simp: Rows_get_def)
  have nid: "js_nth new 0 = js_nth old 0" by (simp add: new_def apply_updates_id)
  have len: "length (uniqueMaps t) = length (unique t)"
    using wf by (simp add: wf_table_def index_consistent_def)
  have idmap: "map (\<lambda>r. js_nth r 0) ((data t)[p := new]) = map (\<lambda>r. js_nth r 0) (data t)"
    using p nid by (simp add: map_update list_update_same_conv)
  have "ids_fresh t'"
  proof -
    have "\<forall>r \<in> set ((data t)[p := new]). \<exists>n. js_nth r 0 = VNum n \<and> n < nextId t"
    proof
      fix r assume "r \<in> set ((data t)[p := new])"
      then have "r = new \<or> r \<in> set (data t)" using set_update_subset_insert by fastforce
      moreover have "old \<in> set (data t)" using p by auto
      ultimately show "\<exists>n. js_nth r 0 = VNum n \<and> n < nextId t"
        using wf nid by (auto simp: wf_table_def ids_fresh_def)
    qed
    then show ?thesis using wf idmap by (simp add: wf_table_def ids_fresh_def t' sr)
  qed
  moreover have "index_consistent t'"
    unfolding index_consistent_def
  proof (intro conjI allI impI)
    show "length (uniqueMaps t') = length (unique t')"
      using update_loop_length [OF l] len by (simp add: t')
  next
    fix i assume "i < length (unique t')"
    then have i: "i < length (unique t)" by (simp add: t')
    let ?f = "\<lambda>r. getUniqueKey (columns t) r (unique t ! i)"
    have c: "uniqueMaps t ! i = set (map ?f (data t))" "distinct (map ?f (data t))"
      using wf i by (simp_all add: wf_table_def index_consistent_def keys_of_def)
    have k: "keys_of t' (unique t' ! i) = (map ?f (data t))[p := ?f new]"
      by (simp add: t' sr keys_of_def map_update)
    have oldk: "map ?f (data t) ! p = ?f old" using p by simp
    have pl: "p < length (map ?f (data t))" using p by simp
    have "uniqueMaps t' ! i = set (keys_of t' (unique t' ! i)) \<and> distinct (keys_of t' (unique t' ! i))"
    proof (cases "?f new = ?f old")
      case True
      have "maps ! i = uniqueMaps t ! i" using update_loop_ok [OF l, of i] i len True by simp
      moreover have "(map ?f (data t))[p := ?f new] = map ?f (data t)"
        using True oldk pl by (metis list_update_id)
      ultimately show ?thesis using c k by (simp add: t')
    next
      case False
      have m: "maps ! i = insert (?f new) (uniqueMaps t ! i - {?f old})"
        using update_loop_ok [OF l, of i] i len False by simp
      have f: "?f new \<notin> uniqueMaps t ! i"
        using update_loop_fresh [OF l, of i] i len False by simp
      have "set ((map ?f (data t))[p := ?f new]) = insert (?f new) (set (map ?f (data t)) - {?f old})"
        using set_update_distinct [OF c(2) pl] oldk by simp
      moreover have "distinct ((map ?f (data t))[p := ?f new])"
        using distinct_list_update [OF c(2), of "?f new" p] f c(1) by blast
      ultimately show ?thesis using m c k by (simp add: t')
    qed
    then show "uniqueMaps t' ! i = set (keys_of t' (unique t' ! i))"
      and "distinct (keys_of t' (unique t' ! i))" by simp_all
  qed
  ultimately show ?thesis by (simp add: wf_table_def)
qed


lemma delete_loop_ok:
  "i + length ucs \<le> length maps \<Longrightarrow>
   \<exists>maps'. delete_loop names row i ucs maps = (None, maps') \<and> length maps' = length maps \<and>
     (\<forall>j < length maps. maps' ! j =
        (if i \<le> j \<and> j < i + length ucs then maps ! j - {getUniqueKey names row (ucs ! (j - i))}
         else maps ! j))"
proof (induction ucs arbitrary: i maps)
  case Nil
  then show ?case by auto
next
  case (Cons uc ucs)
  let ?m = "maps[i := maps ! i - {getUniqueKey names row uc}]"
  from Cons.prems have i: "i < length maps" and "Suc i + length ucs \<le> length ?m" by auto
  from Cons.IH [OF this(2)] obtain maps' where
    r: "delete_loop names row (Suc i) ucs ?m = (None, maps')" and l: "length maps' = length maps"
    and n: "\<forall>j < length maps. maps' ! j =
        (if Suc i \<le> j \<and> j < Suc i + length ucs then ?m ! j - {getUniqueKey names row (ucs ! (j - Suc i))}
         else ?m ! j)" by auto
  have "\<forall>j < length maps. maps' ! j =
        (if i \<le> j \<and> j < i + length (uc # ucs)
         then maps ! j - {getUniqueKey names row ((uc # ucs) ! (j - i))} else maps ! j)"
  proof (intro allI impI)
    fix j assume j: "j < length maps"
    show "maps' ! j = (if i \<le> j \<and> j < i + length (uc # ucs)
         then maps ! j - {getUniqueKey names row ((uc # ucs) ! (j - i))} else maps ! j)"
      using n j i by (cases "j = i") (auto simp: nth_Cons')
  qed
  with r l i show ?case by simp
qed

lemma filter_id_keys:
  "distinct (map g xs) \<Longrightarrow> distinct (map f xs) \<Longrightarrow> find (\<lambda>r. g r = i) xs = Some old \<Longrightarrow>
   set (map f (filter (\<lambda>r. g r \<noteq> i) xs)) = set (map f xs) - {f old} \<and>
   distinct (map f (filter (\<lambda>r. g r \<noteq> i) xs))"
proof (induction xs)
  case Nil
  then show ?case by simp
next
  case (Cons x xs)
  show ?case
  proof (cases "g x = i")
    case True
    then have o: "old = x" using Cons.prems by simp
    have "g x \<notin> g ` set xs" using Cons.prems(1) by simp
    then have "\<forall>r \<in> set xs. g r \<noteq> i" using True by (metis imageI)
    then have "filter (\<lambda>r. g r \<noteq> i) xs = xs" by (simp add: filter_id_conv)
    with True o Cons.prems show ?thesis by auto
  next
    case False
    with Cons.prems have f: "find (\<lambda>r. g r = i) xs = Some old" by simp
    then have "old \<in> set xs" by (auto simp: find_Some_iff)
    with Cons.prems(2) have "f x \<noteq> f old" by auto
    with Cons.IH [OF _ _ f] Cons.prems False show ?thesis by auto
  qed
qed

lemma delete_wf:
  assumes wf: "wf_table t"
  shows "fst (Rows_delete t ident) = None \<and> wf_table (snd (Rows_delete t ident))"
proof (cases "Rows_get t ident")
  case None
  with wf show ?thesis by (simp add: Rows_delete_def)
next
  case (Some row)
  have len: "length (uniqueMaps t) = length (unique t)"
    using wf by (simp add: wf_table_def index_consistent_def)
  then obtain maps where l: "delete_loop (columns t) row 0 (unique t) (uniqueMaps t) = (None, maps)"
    and ml: "length maps = length (uniqueMaps t)"
    and mj: "\<forall>j < length (uniqueMaps t). maps ! j =
        (if 0 \<le> j \<and> j < 0 + length (unique t)
         then uniqueMaps t ! j - {getUniqueKey (columns t) row (unique t ! (j - 0))}
         else uniqueMaps t ! j)"
    using delete_loop_ok [of 0 "unique t" "uniqueMaps t" "columns t" row] by auto
  define t' where "t' = t\<lparr>uniqueMaps := maps, data := filter (\<lambda>r. js_nth r 0 \<noteq> ident) (data t)\<rparr>"
  have res: "Rows_delete t ident = (None, t')"
    using Some l by (simp add: Rows_delete_def t'_def)
  have f: "find (\<lambda>r. js_nth r 0 = ident) (data t) = Some row"
    using Some by (simp add: Rows_get_def)
  have idd: "distinct (map (\<lambda>r. js_nth r 0) (data t))"
    using wf by (simp add: wf_table_def ids_fresh_def)
  have "distinct (map (\<lambda>r. js_nth r 0) (filter (\<lambda>r. js_nth r 0 \<noteq> ident) (data t)))"
    using idd by (rule distinct_map_filter)
  moreover have "\<forall>r \<in> set (filter (\<lambda>r. js_nth r 0 \<noteq> ident) (data t)).
      \<exists>n. js_nth r 0 = VNum n \<and> n < nextId t"
    using wf unfolding wf_table_def ids_fresh_def by simp
  ultimately have "ids_fresh t'" by (simp add: ids_fresh_def t'_def)
  moreover have "index_consistent t'"
    unfolding index_consistent_def
  proof (intro conjI allI impI)
    show "length (uniqueMaps t') = length (unique t')" using ml len by (simp add: t'_def)
  next
    fix i assume "i < length (unique t')"
    then have i: "i < length (unique t)" by (simp add: t'_def)
    let ?f = "\<lambda>r. getUniqueKey (columns t) r (unique t ! i)"
    have c: "uniqueMaps t ! i = set (map ?f (data t))" "distinct (map ?f (data t))"
      using wf i by (simp_all add: wf_table_def index_consistent_def keys_of_def)
    have m: "maps ! i = uniqueMaps t ! i - {?f row}" using mj i len by simp
    from filter_id_keys [OF idd c(2) f] m c(1)
    show "uniqueMaps t' ! i = set (keys_of t' (unique t' ! i))"
      and "distinct (keys_of t' (unique t' ! i))"
      by (simp_all add: t'_def keys_of_def)
  qed
  ultimately show ?thesis using res by (simp add: wf_table_def)
qed

lemma add_loop_single:
  "length ucs \<le> 1 \<Longrightarrow> add_loop names arr i ucs maps = (e, maps') \<Longrightarrow> e \<noteq> None \<Longrightarrow> maps' = maps"
  by (cases ucs) (auto simp: Let_def split: if_splits)

lemma update_loop_single:
  "length ucs \<le> 1 \<Longrightarrow> update_loop names old new i ucs maps = (e, maps') \<Longrightarrow> e \<noteq> None \<Longrightarrow> maps' = maps"
  by (cases ucs) (auto simp: Let_def split: if_splits)

lemma update_loop_no_TypeError:
  "i + length ucs \<le> length maps \<Longrightarrow> update_loop names old new i ucs maps \<noteq> (Some TypeError, maps')"
  by (induction ucs arbitrary: i maps) (auto simp: Let_def)

lemma update_loop_errors:
  "update_loop names old new i ucs maps = (Some e, maps') \<Longrightarrow>
   e = TypeError \<or> (\<exists>uc. e = UniqueViolation uc)"
  by (induction ucs arbitrary: i maps) (auto simp: Let_def split: if_splits)

lemma add_failed_wf:
  assumes wf: "wf_table t" and one: "length (unique t) \<le> 1" and f: "Rows_add t ob = (Inl e, t')"
  shows "wf_table t'"
proof -
  define arr where "arr = js_set (fill_row (columns t) ob) 0 (VNum (nextId t))"
  obtain maps where l: "add_loop (columns t) arr 0 (unique t) (uniqueMaps t) = (Some e, maps)"
    and t': "t' = t\<lparr>nextId := nextId t + 1, uniqueMaps := maps\<rparr>"
    using f by (auto simp: Rows_add_def Let_def arr_def split: prod.splits option.splits)
  have "maps = uniqueMaps t" using add_loop_single [OF one l] by simp
  with t' have t'': "t' = t\<lparr>nextId := nextId t + 1\<rparr>" by simp
  have "index_consistent t'"
    using wf by (simp add: wf_table_def index_consistent_def keys_of_def t'')
  moreover have "\<forall>r \<in> set (data t). \<exists>n. js_nth r 0 = VNum n \<and> n < nextId t + 1"
    using wf unfolding wf_table_def ids_fresh_def by fastforce
  then have "ids_fresh t'" using wf by (simp add: wf_table_def ids_fresh_def t'')
  ultimately show ?thesis by (simp add: wf_table_def)
qed

lemma update_failed_wf:
  assumes wf: "wf_table t" and one: "length (unique t) \<le> 1" and f: "Rows_update t ident ob = (Some e, t')"
  shows "wf_table t'"
proof (cases "Rows_get t ident")
  case None
  with f show ?thesis by (simp add: Rows_update_def)
next
  case (Some old)
  define new where "new = apply_updates (columns t) ob old"
  obtain maps where l: "update_loop (columns t) old new 0 (unique t) (uniqueMaps t) = (Some e, maps)"
    using f Some
    by (auto simp: Rows_update_def Let_def new_def split: prod.splits option.splits error.splits)
  have len: "length (uniqueMaps t) = length (unique t)"
    using wf by (simp add: wf_table_def index_consistent_def)
  have m: "maps = uniqueMaps t" using update_loop_single [OF one l] by simp
  have "e \<noteq> TypeError" using update_loop_no_TypeError [of 0 "unique t" "uniqueMaps t"] l len by auto
  then obtain uc where e: "e = UniqueViolation uc" using update_loop_errors [OF l] by auto
  have "t' = t\<lparr>uniqueMaps := maps\<rparr>"
    using f Some l e by (simp add: Rows_update_def Let_def new_def)
  with m wf show ?thesis by simp
qed

lemma wf_step_single:
  assumes "wf_table t" and "length (unique t) \<le> 1"
  shows "wf_table (step t opn)"
proof (cases opn)
  case (Create ob)
  obtain r t' where r: "Rows_add t ob = (r, t')" by (cases "Rows_add t ob")
  have "wf_table t'"
  proof (cases r)
    case (Inl e)
    with r show ?thesis using add_failed_wf [OF assms] by simp
  next
    case (Inr v)
    with r show ?thesis using add_success_wf [OF assms(1)] by simp
  qed
  with r Create show ?thesis by simp
next
  case (Update ident ob)
  obtain r t' where r: "Rows_update t ident ob = (r, t')" by (cases "Rows_update t ident ob")
  have "wf_table t'"
  proof (cases r)
    case None
    with r show ?thesis using update_success_wf [OF assms(1)] by simp
  next
    case (Some e)
    with r show ?thesis using update_failed_wf [OF assms] by simp
  qed
  with r Update show ?thesis by simp
next
  case (Delete ident)
  then show ?thesis using assms delete_wf by simp
qed

lemma wf_rows_distinct_tuples:
  assumes wf: "wf_table t" and i: "i < length (unique t)"
    and p: "p < length (data t)" and q: "q < length (data t)" and pq: "p \<noteq> q"
  shows "map (\<lambda>col. js_nth (data t ! p) (getIndex (columns t) col)) (unique t ! i) \<noteq>
         map (\<lambda>col. js_nth (data t ! q) (getIndex (columns t) col)) (unique t ! i)"
proof
  assume eq: "map (\<lambda>col. js_nth (data t ! p) (getIndex (columns t) col)) (unique t ! i) =
         map (\<lambda>col. js_nth (data t ! q) (getIndex (columns t) col)) (unique t ! i)"
  have m: "map (join_str \<circ> (\<lambda>col. js_nth (data t ! p) (getIndex (columns t) col))) (unique t ! i) =
           map (join_str \<circ> (\<lambda>col. js_nth (data t ! q) (getIndex (columns t) col))) (unique t ! i)"
    using arg_cong [OF eq, of "map join_str"] by (simp only: map_map)
  have "getUniqueKey (columns t) (data t ! p) (unique t ! i) =
        getUniqueKey (columns t) (data t ! q) (unique t ! i)"
    unfolding getUniqueKey_def using m by (simp only: comp_def)
  moreover have "distinct (keys_of t (unique t ! i))"
    using wf i by (simp add: wf_table_def index_consistent_def)
  ultimately show False using p q pq by (auto simp: keys_of_def distinct_conv_nth)
qed

lemma update_collision_rejected:
  assumes wf: "wf_table t" and g: "Rows_get t ident = Some old"
    and i: "i < length (unique t)"
    and ch: "getUniqueKey (columns t) (apply_updates (columns t) ob old) (unique t ! i) \<noteq>
             getUniqueKey (columns t) old (unique t ! i)"
    and r: "r \<in> set (data t)"
    and col: "getUniqueKey (columns t) r (unique t ! i) =
              getUniqueKey (columns t) (apply_updates (columns t) ob old) (unique t ! i)"
  shows "\<exists>uc. fst (Rows_update t ident ob) = Some (UniqueViolation uc) \<and>
         data (snd (Rows_update t ident ob)) = data t"
proof -
  define new where "new = apply_updates (columns t) ob old"
  obtain e maps where l: "update_loop (columns t) old new 0 (unique t) (uniqueMaps t) = (e, maps)"
    by (cases "update_loop (columns t) old new 0 (unique t) (uniqueMaps t)")
  have len: "length (uniqueMaps t) = length (unique t)"
    using wf by (simp add: wf_table_def index_consistent_def)
  have c: "uniqueMaps t ! i = set (keys_of t (unique t ! i))"
    using wf i by (simp add: wf_table_def index_consistent_def)
  have "e \<noteq> None"
  proof
    assume "e = None"
    with l have "getUniqueKey (columns t) new (unique t ! i) \<notin> uniqueMaps t ! i"
      using update_loop_fresh [of "columns t" old new 0 "unique t" "uniqueMaps t" maps i] i len ch
      by (simp add: new_def)
    moreover have "getUniqueKey (columns t) r (unique t ! i) \<in> uniqueMaps t ! i"
      using c r by (simp add: keys_of_def)
    ultimately show False using col by (simp add: new_def)
  qed
  then obtain err where e: "e = Some err" by auto
  have "err \<noteq> TypeError"
    using update_loop_no_TypeError [of 0 "unique t" "uniqueMaps t"] l len e by auto
  then obtain uc where "err = UniqueViolation uc" using update_loop_errors l e by blast
  with l e g show ?thesis by (auto simp: Rows_update_def Let_def new_def)
qed

lemma update_same_keys_succeeds:
  assumes g: "Rows_get t ident = Some old"
    and same: "\<forall>uc \<in> set (unique t).
       getUniqueKey (columns t) (apply_updates (columns t) ob old) uc = getUniqueKey (columns t) old uc"
  shows "Rows_update t ident ob =
         (None, t\<lparr>data := set_row ident (apply_updates (columns t) ob old) (data t)\<rparr>)"
proof -
  have "update_loop names old new i ucs maps = (None, maps)"
    if "\<forall>uc \<in> set ucs. getUniqueKey names new uc = getUniqueKey names old uc"
    for names new i ucs maps
    using that by (induction ucs arbitrary: i) (simp_all add: Let_def)
  with same g show ?thesis by (simp add: Rows_update_def Let_def)
qed

text \<open>
  Claim C1. The claim asks that after every create, update and delete, failed ones
  included, no two live rows agree on a unique constraint and the index maps hold
  exactly the keys of the live rows. With one constraint at most this is
  \<open>wf_step_single\<close>. With two it fails: both loops commit the maps of the
  constraints they have passed before a later constraint throws. On the table unique
  on \<open>x\<close> and on \<open>y\<close>, with rows \<open>(1, 1)\<close> and \<open>(2, 2)\<close>, the update of row 1
  to \<open>(3, 2)\<close> is rejected on \<open>y\<close> after the \<open>x\<close> index has traded key \<open>1\<close>
  for key \<open>3\<close>; the create of \<open>(1, 5)\<close> that follows is accepted, and two live
  rows carry \<open>x = 1\<close>. A create rejected on \<open>y\<close> likewise leaves its \<open>x\<close> key
  behind with no row to own it.
\<close>

theorem failed_update_leaks_index_keys:
  "Rows_update (foldl step uv_table [Create (uv 1 1), Create (uv 2 2)]) (VNum 1) (uv 3 2) =
     (Some (UniqueViolation [''y'']),
      uv_table\<lparr>data := [[VNum 1, VNum 1, VNum 1], [VNum 2, VNum 2, VNum 2]], nextId := 3,
                uniqueMaps := [{''2'', ''3''}, {''1'', ''2''}]\<rparr>) \<and>
   Rows_add (foldl step uv_table [Create (uv 1 1), Create (uv 2 2), Update (VNum 1) (uv 3 2)]) (uv 1 5) =
     (Inr (VNum 3),
      uv_table\<lparr>data := [[VNum 1, VNum 1, VNum 1], [VNum 2, VNum 2, VNum 2], [VNum 3, VNum 1, VNum 5]],
                nextId := 4, uniqueMaps := [{''1'', ''2'', ''3''}, {''1'', ''2'', ''5''}]\<rparr>) \<and>
   Rows_add (snd (Rows_add uv_table (uv 1 1))) (uv 2 1) =
     (Inl (UniqueViolation [''y'']),
      uv_table\<lparr>data := [[VNum 1, VNum 1, VNum 1]], nextId := 3,
                uniqueMaps := [{''1'', ''2''}, {''1''}]\<rparr>)"
  by code_simp

text \<open>
  Claim C4. On a well-formed table the claim holds: a changed key that another live
  row owns makes \<open>Rows.update\<close> throw with the rows as they were
  (\<open>update_collision_rejected\<close>), and an update that changes no key succeeds
  (\<open>update_same_keys_succeeds\<close>). The collision test reads the index map, though,
  not the rows, and the state a rejected update on two constraints leaves behind is
  not well-formed: there the \<open>x\<close> index has lost key \<open>1\<close> although row 1 still
  carries \<open>x = 1\<close>, so the update of row 2 to \<open>x = 1\<close> goes through.
\<close>

theorem update_collision_undetected:
  "Rows_get (foldl step uv_table [Create (uv 1 1), Create (uv 2 2), Update (VNum 1) (uv 3 2)]) (VNum 2)
     = Some [VNum 2, VNum 2, VNum 2] \<and>
   data (foldl step uv_table [Create (uv 1 1), Create (uv 2 2), Update (VNum 1) (uv 3 2)])
     = [[VNum 1, VNum 1, VNum 1], [VNum 2, VNum 2, VNum 2]] \<and>
   fst (Rows_update (foldl step uv_table [Create (uv 1 1), Create (uv 2 2), Update (VNum 1) (uv 3 2)])
          (VNum 2) [(''x'', VNum 1)]) = None \<and>
   data (snd (Rows_update (foldl step uv_table [Create (uv 1 1), Create (uv 2 2), Update (VNum 1) (uv 3 2)])
          (VNum 2) [(''x'', VNum 1)]))
     = [[VNum 1, VNum 1, VNum 1], [VNum 2, VNum 1, VNum 2]]"
  by code_simp

section \<open>Join views\<close>

lemma join_rows_eq:
  "join_rows l li ri rs acc =
   acc @ map (\<lambda>r. l @ tl r) (filter (\<lambda>r. js_nth l li = js_nth r ri) rs)"
  by (induction rs arbitrary: acc) (simp_all add: drop_Suc)

lemma join_loop_eq:
  "join_loop li ri rs ls acc =
   acc @ concat (map (\<lambda>l. map (\<lambda>r. l @ tl r) (filter (\<lambda>r. js_nth l li = js_nth r ri) rs)) ls)"
  by (induction ls arbitrary: acc) (simp_all add: join_rows_eq)

lemma getData_loop_eq:
  "map (\<lambda>j. Tables_getTable cat (rightTable j)) js = map Some rts \<Longrightarrow>
   getData_loop cat js names rows = Inr (spec_joins names rows (zip js rts))"
proof (induction js arbitrary: names rows rts)
  case Nil
  then show ?case by simp
next
  case (Cons j js)
  then obtain rt rts' where rts: "rts = rt # rts'" by (cases rts) auto
  with Cons.prems have rt: "Tables_getTable cat (rightTable j) = Some rt"
    and rest: "map (\<lambda>j. Tables_getTable cat (rightTable j)) js = map Some rts'" by auto
  show ?case
    using Cons.IH [OF rest] rt rts
    by (simp add: Let_def join_loop_eq spec_join_def cell_def getIndex_def drop_Suc)
qed

text \<open>
  Claim C7. For a view whose first table and right tables are in the catalog,
  \<open>View.getData\<close> returns exactly what the specification describes: all rows of
  the first table, then for each join in order the combinations of a surviving left
  row and a right row whose join columns are equal, each the left row followed by
  the right row without its identity, in left-major and right-minor order. A left
  row that matches no right row contributes nothing.
\<close>

theorem getData_is_spec_join:
  assumes "tableNames v = n # ns"
    and "Tables_getTable cat n = Some first"
    and "map (\<lambda>j. Tables_getTable cat (rightTable j)) (joins v) = map Some rts"
  shows "View_getData cat v = Inr (spec_getData first (zip (joins v) rts))"
  using assms getData_loop_eq [of cat "joins v" rts "columns first" "data first"]
  by (simp add: View_getData_def spec_getData_def)

theorem getData_is_spec_join_witness:
  "tableNames viewAB = ''A'' # [''B''] \<and>
   Tables_getTable catAB ''A'' = Some tblA \<and>
   map (\<lambda>j. Tables_getTable catAB (rightTable j)) (joins viewAB) = map Some [tblB] \<and>
   View_getData catAB viewAB = Inr (spec_getData tblA (zip (joins viewAB) [tblB])) \<and>
   View_getData catAB viewAB =
     Inr ([''id'', ''x'', ''B.a_id''],
          [[VNum 1, VStr ''p'', VNum 1], [VNum 3, VStr ''r'', VNum 3], [VNum 3, VStr ''r'', VNum 3]])"
proof -
  have a: "tableNames viewAB = ''A'' # [''B'']" by (simp add: viewAB_def)
  have b: "Tables_getTable catAB ''A'' = Some tblA"
    by (simp add: Tables_getTable_def catAB_def normalize_def)
  have c: "map (\<lambda>j. Tables_getTable catAB (rightTable j)) (joins viewAB) = map Some [tblB]"
    by (simp add: Tables_getTable_def catAB_def normalize_def viewAB_def)
  have d: "spec_getData tblA (zip (joins viewAB) [tblB]) =
     ([''id'', ''x'', ''B.a_id''],
      [[VNum 1, VStr ''p'', VNum 1], [VNum 3, VStr ''r'', VNum 3], [VNum 3, VStr ''r'', VNum 3]])"
    by (simp add: spec_getData_def spec_join_def cell_def js_nth_def viewAB_def tblA_def tblB_def)
  show ?thesis using getData_is_spec_join [OF a b c] a b c d by simp
qed

section \<open>Metadata registration\<close>

lemma map_of_alist_set: "map_of (alist_set k v xs) k = Some v"
  by (induction xs) auto

lemma map_of_alist_set_other: "k' \<noteq> k \<Longrightarrow> map_of (alist_set k v xs) k' = map_of xs k'"
  by (induction xs) auto

text \<open>
  Claim C9, as the code has it. Registration validates nothing: whatever the
  metadata declares and whatever the catalog holds, \<open>Crud.define\<close> returns normally
  with the entry stored under the normalised name, and every other entry as it was.
\<close>

theorem define_stores_unchecked:
  "\<exists>md'. Crud_define md tableName m = Inr md' \<and>
         map_of md' (normalize tableName) = Some m \<and>
         (\<forall>k. k \<noteq> normalize tableName \<longrightarrow> map_of md' k = map_of md k)"
  by (simp add: Crud_define_def map_of_alist_set map_of_alist_set_other)

theorem define_stores_unchecked_witness:
  "Crud_define dice_md ''Games'' stray_meta =
     Inr [(''tblPlayers'', players_meta), (''tblGames'', stray_meta)] \<and>
   map_of [(''tblPlayers'', players_meta), (''tblGames'', stray_meta)] (normalize ''Games'')
     = Some stray_meta \<and>
   map_of [(''tblPlayers'', players_meta), (''tblGames'', stray_meta)] ''tblPlayers''
     = map_of dice_md ''tblPlayers''"
  using define_stores_unchecked [of dice_md "''Games''" stray_meta]
  by (simp add: Crud_define_def dice_md_def normalize_def)

text \<open>
  The claim as stated fails. \<open>tblNowhere\<close> is not in the catalog and \<open>owner_id\<close> is
  no column of \<open>tblGames\<close>, yet each of the three registrations returns normally.
  With the scenario's database, the first registration shows only when a game for
  player 5 is created, and the second only when player 5 is deleted: both calls end
  in a TypeError of the runtime and leave the database as it was.
\<close>

theorem define_accepts_missing_table:
  "Tables_getTable dice_db ''tblNowhere'' = None \<and>
   Crud_define [] ''Games'' stray_meta = Inr [(''tblGames'', stray_meta)] \<and>
   Crud_create [(''tblGames'', stray_meta)] dice_db ''Games'' [(''player1_id'', VNum 5)]
     = (Inl TypeError, dice_db) \<and>
   Crud_define [] ''Nowhere'' games_meta = Inr [(''tblNowhere'', games_meta)] \<and>
   Crud_delete 1 [(''tblNowhere'', games_meta)] dice_db ''Players'' (VNum 5)
     = Some (Some TypeError, dice_db) \<and>
   getIndex (columns tblGames) ''owner_id'' = - 1 \<and>
   Crud_define [] ''Games'' owner_meta = Inr [(''tblGames'', owner_meta)]"
  by (simp add: Tables_getTable_def dice_db_def normalize_def Crud_define_def getIndex_def
      tblGames_def Database_read_def Crud_create_def stray_meta_def games_meta_def obj_get_def
      Let_def)

section \<open>Foreign-key validation\<close>

text \<open>
  Claim C5. \<open>Crud.create\<close> validates the foreign keys and throws before the store
  is touched, but \<open>Crud.update\<close> validates nothing. In the scenario's database no
  player has the identity 999: the create of a game with \<open>player1_id = 999\<close> is
  refused and leaves the database as it was, while the update of game 1 to
  \<open>player1_id = 999\<close> returns normally and stores the dangling reference.
\<close>

theorem update_skips_fk_validation:
  "Database_read dice_db ''tblPlayers'' [(''id'', VNum 999)] = Inr [] \<and>
   Crud_create dice_md dice_db ''Games'' [(''player1_id'', VNum 999)] =
     (Inl (ForeignKeyViolation ''tblPlayers'' ''player1_id'' (VNum 999)), dice_db) \<and>
   Crud_update dice_md dice_db ''Games'' (VNum 1) [(''player1_id'', VNum 999)] =
     (None, dice_db(''tblGames'' \<mapsto> tblGames\<lparr>data :=
        [[VNum 1, VNum 999, VNum 6], [VNum 2, VNum 5, VNum 6], [VNum 3, VNum 6, VNum 6]]\<rparr>))"
  by (simp add: Database_read_def Tables_getTable_def normalize_def dice_db_def dice_md_def
      Rows_find_def row_matches_def keys_def getIndex_def js_nth_def obj_get_def
      tblPlayers_def tblGames_def Crud_create_def games_meta_def players_meta_def Crud_pkOf_def
      Crud_update_def Database_update_def Rows_update_def Rows_get_def apply_updates_def
      js_set_def Let_def)

subsection \<open>A foreign-key column named like an inherited member\<close>

text \<open>
  \<open>obj[col]\<close> finds the members of \<open>Object.prototype\<close> when the object has no
  property \<open>col\<close> of its own. A foreign key declared on a column \<open>constructor\<close> is
  therefore validated on every create, also when the object gives no value for it:
  the value read is the function \<open>Object\<close>, no player has it for identity, and the
  create is refused.
\<close>

lemma create_reads_inherited_member:
  "Crud_create [(''tblGames'', ctor_meta)] dice_db ''Games'' [] =
     (Inl (ForeignKeyViolation ''tblPlayers'' ''constructor'' (VProto ''constructor'')), dice_db)"
  by (simp add: Crud_create_def ctor_meta_def normalize_def obj_get_def proto_members_def
      Database_read_def Tables_getTable_def dice_db_def Crud_pkOf_def Rows_find_def
      row_matches_def keys_def getIndex_def js_nth_def tblPlayers_def Let_def)

section \<open>Cascade on a cycle\<close>

lemma cyc_read_B: "Database_read cyc_db ''tblB'' [(''a_id'', VNum 1)] = Inr [[VNum 1, VNum 1]]"
  by (simp add: Database_read_def Tables_getTable_def normalize_def cyc_db_def cyc_B_def
      Rows_find_def row_matches_def keys_def getIndex_def js_nth_def obj_get_def)

lemma cyc_read_A: "Database_read cyc_db ''tblA'' [(''b_id'', VNum 1)] = Inr [[VNum 1, VNum 1]]"
  by (simp add: Database_read_def Tables_getTable_def normalize_def cyc_db_def cyc_A_def
      Rows_find_def row_matches_def keys_def getIndex_def js_nth_def obj_get_def)

lemma cyc_delete_both:
  "Crud_delete depth cyc_md cyc_db ''tblA'' (VNum 1) = None \<and>
   Crud_delete depth cyc_md cyc_db ''tblB'' (VNum 1) = None"
proof (induction depth)
  case 0
  show ?case by simp
next
  case (Suc depth)
  have a: "Crud_delete (Suc depth) cyc_md cyc_db ''tblA'' (VNum 1) = None"
    using Suc by (simp add: cyc_md_def normalize_def cyc_read_B js_nth_def)
  have b: "Crud_delete (Suc depth) cyc_md cyc_db ''tblB'' (VNum 1) = None"
    using Suc by (simp add: cyc_md_def normalize_def cyc_read_A js_nth_def)
  from a b show ?case by simp
qed

text \<open>
  Claim C2. \<open>Crud.delete\<close> keeps no record of the rows it is already deleting. On
  the two tables that reference each other, the delete of row 1 of \<open>tblA\<close> calls
  the delete of row 1 of \<open>tblB\<close>, which calls the delete of row 1 of \<open>tblA\<close>
  again, the database unchanged in between: the call returns at no depth of
  recursion.
\<close>

theorem crud_delete_recurses_forever:
  "\<forall>depth. Crud_delete depth cyc_md cyc_db ''A'' (VNum 1) = None"
proof
  fix depth
  have "Crud_delete depth cyc_md cyc_db ''A'' (VNum 1) =
        Crud_delete depth cyc_md cyc_db ''tblA'' (VNum 1)"
    by (cases depth) (simp_all add: normalize_def split: option.splits prod.splits)
  then show "Crud_delete depth cyc_md cyc_db ''A'' (VNum 1) = None"
    using cyc_delete_both [of depth] by simp
qed

section \<open>What a read returns\<close>

subsection \<open>The store of arrays behaves as the table of values\<close>

lemma find_map_heap:
  "find P (map h as) = map_option h (find (\<lambda>a. P (h a)) as)"
  by (induction as) auto

lemma abs_get: "Rows_get (abs_table st) ident = map_option (r_heap st) (ref_get st ident)"
  by (simp add: Rows_get_def ref_get_def abs_table_def find_map_heap)

lemma abs_read: "Rows_find (abs_table st) flt = map (r_heap st) (ref_read st flt)"
  by (simp add: Rows_find_def ref_read_def abs_table_def filter_map comp_def)


lemma map_heap_upd_target:
  "find (\<lambda>b. js_nth (h b) 0 = ident) as = Some a \<Longrightarrow> distinct as \<Longrightarrow> c \<notin> set as \<Longrightarrow>
   map (h(c := x, a := new)) as = set_row ident new (map h as)"
proof (induction as)
  case Nil
  then show ?case by simp
next
  case (Cons b bs)
  show ?case
  proof (cases "js_nth (h b) 0 = ident")
    case True
    with Cons.prems have ab: "a = b" by simp
    with Cons.prems have "b \<notin> set bs" "c \<notin> set bs" by auto
    with True ab show ?thesis by auto
  next
    case False
    with Cons.prems have f: "find (\<lambda>b. js_nth (h b) 0 = ident) bs = Some a" by simp
    then have "js_nth (h a) 0 = ident" by (auto simp: find_Some_iff)
    with False have "b \<noteq> a" by auto
    moreover from Cons.prems have "b \<noteq> c" by auto
    ultimately show ?thesis using Cons.IH [OF f] Cons.prems False by simp
  qed
qed

lemma map_heap_set_ref:
  "find (\<lambda>b. js_nth (h b) 0 = ident) as = Some a \<Longrightarrow> distinct as \<Longrightarrow> c \<notin> set as \<Longrightarrow>
   map (h(c := h a, a := new)) (set_ref h ident c as) = map h as \<and>
   distinct (set_ref h ident c as) \<and> set (set_ref h ident c as) \<subseteq> insert c (set as)"
proof (induction as)
  case Nil
  then show ?case by simp
next
  case (Cons b bs)
  show ?case
  proof (cases "js_nth (h b) 0 = ident")
    case True
    with Cons.prems have ab: "a = b" by simp
    with Cons.prems have n: "b \<notin> set bs" "c \<notin> set bs" "c \<noteq> b" by auto
    with True ab Cons.prems show ?thesis by auto
  next
    case False
    with Cons.prems have f: "find (\<lambda>b. js_nth (h b) 0 = ident) bs = Some a" by simp
    then have "js_nth (h a) 0 = ident" by (auto simp: find_Some_iff)
    with False have "b \<noteq> a" by auto
    moreover from Cons.prems have "b \<noteq> c" by auto
    ultimately show ?thesis using Cons.IH [OF f] Cons.prems False by auto
  qed
qed

lemma ref_update_refines:
  assumes ok: "store_ok st"
  shows "fst (ref_update st ident u) = fst (Rows_update (abs_table st) ident u) \<and>
         abs_table (snd (ref_update st ident u)) = snd (Rows_update (abs_table st) ident u) \<and>
         store_ok (snd (ref_update st ident u))"
proof (cases "ref_get st ident")
  case None
  then show ?thesis using ok by (simp add: ref_update_def Rows_update_def abs_get)
next
  case (Some a)
  define old where "old = r_heap st a"
  define new where "new = apply_updates (r_columns st) u old"
  define c where "c = r_next st"
  obtain err maps where l: "update_loop (r_columns st) old new 0 (r_unique st) (r_uniqueMaps st) = (err, maps)"
    by (cases "update_loop (r_columns st) old new 0 (r_unique st) (r_uniqueMaps st)")
  have f: "find (\<lambda>b. js_nth (r_heap st b) 0 = ident) (r_data st) = Some a"
    using Some by (simp add: ref_get_def)
  have d: "distinct (r_data st)" and fresh: "c \<notin> set (r_data st)"
    using ok by (auto simp: store_ok_def list_all_iff c_def)
  have below: "\<forall>b \<in> set (r_data st). b < Suc c"
    using ok by (auto simp: store_ok_def list_all_iff c_def)
  have g: "Rows_get (abs_table st) ident = Some old" using Some by (simp add: abs_get old_def)
  have cols: "columns (abs_table st) = r_columns st" "unique (abs_table st) = r_unique st"
    "uniqueMaps (abs_table st) = r_uniqueMaps st" "data (abs_table st) = map (r_heap st) (r_data st)"
    by (simp_all add: abs_table_def)
  have m1: "map ((r_heap st)(c := old, a := new)) (r_data st) = set_row ident new (map (r_heap st) (r_data st))"
    using map_heap_upd_target [OF f d fresh] by simp
  have m2: "map ((r_heap st)(c := old, a := new)) (set_ref (r_heap st) ident c (r_data st)) = map (r_heap st) (r_data st)"
    and d2: "distinct (set_ref (r_heap st) ident c (r_data st))"
    and s2: "set (set_ref (r_heap st) ident c (r_data st)) \<subseteq> insert c (set (r_data st))"
    using map_heap_set_ref [OF f d fresh, of new] by (simp_all add: old_def)
  show ?thesis
  proof (cases err)
    case None
    with Some l g cols m1 d below show ?thesis
      by (simp add: ref_update_def Rows_update_def Let_def old_def [symmetric] new_def [symmetric]
          c_def [symmetric] abs_table_def store_ok_def list_all_iff)
  next
    case (Some e)
    show ?thesis
    proof (cases "\<exists>uc. e = UniqueViolation uc")
      case True
      then obtain uc where "e = UniqueViolation uc" by blast
      with Some \<open>ref_get st ident = Some a\<close> l g cols m2 d2 s2 below show ?thesis
        by (auto simp: ref_update_def Rows_update_def Let_def old_def [symmetric] new_def [symmetric]
            c_def [symmetric] abs_table_def store_ok_def list_all_iff)
    next
      case False
      with Some \<open>ref_get st ident = Some a\<close> l g cols m1 d below show ?thesis
        by (cases e) (simp_all add: ref_update_def Rows_update_def Let_def old_def [symmetric]
            new_def [symmetric] c_def [symmetric] abs_table_def store_ok_def list_all_iff)
    qed
  qed
qed

lemma ref_delete_refines:
  "fst (ref_delete st ident) = fst (Rows_delete (abs_table st) ident) \<and>
   abs_table (snd (ref_delete st ident)) = snd (Rows_delete (abs_table st) ident) \<and>
   (store_ok st \<longrightarrow> store_ok (snd (ref_delete st ident)))"
proof (cases "ref_get st ident")
  case None
  then show ?thesis by (simp add: ref_delete_def Rows_delete_def abs_get)
next
  case (Some a)
  obtain err maps where l:
    "delete_loop (r_columns st) (r_heap st a) 0 (r_unique st) (r_uniqueMaps st) = (err, maps)"
    by (cases "delete_loop (r_columns st) (r_heap st a) 0 (r_unique st) (r_uniqueMaps st)")
  have g: "Rows_get (abs_table st) ident = Some (r_heap st a)" using Some by (simp add: abs_get)
  have cols: "columns (abs_table st) = r_columns st" "unique (abs_table st) = r_unique st"
    "uniqueMaps (abs_table st) = r_uniqueMaps st" "data (abs_table st) = map (r_heap st) (r_data st)"
    by (simp_all add: abs_table_def)
  have fm: "filter (\<lambda>r. js_nth r 0 \<noteq> ident) (map (r_heap st) (r_data st)) =
            map (r_heap st) (filter (\<lambda>a. js_nth (r_heap st a) 0 \<noteq> ident) (r_data st))"
    by (simp add: filter_map comp_def)
  show ?thesis
    using Some l g cols fm
    by (cases err)
       (simp_all add: ref_delete_def Rows_delete_def Let_def abs_table_def store_ok_def list_all_iff)
qed

lemma ref_add_refines:
  assumes ok: "store_ok st"
  shows "fst (ref_add st ob) = fst (Rows_add (abs_table st) ob) \<and>
         abs_table (snd (ref_add st ob)) = snd (Rows_add (abs_table st) ob) \<and>
         store_ok (snd (ref_add st ob))"
proof -
  define arr where "arr = js_set (fill_row (r_columns st) ob) 0 (VNum (r_nextId st))"
  obtain err maps where l: "add_loop (r_columns st) arr 0 (r_unique st) (r_uniqueMaps st) = (err, maps)"
    by (cases "add_loop (r_columns st) arr 0 (r_unique st) (r_uniqueMaps st)")
  have fresh: "r_next st \<notin> set (r_data st)" and below: "\<forall>b \<in> set (r_data st). b < Suc (r_next st)"
    and d: "distinct (r_data st)"
    using ok by (auto simp: store_ok_def list_all_iff)
  from fresh have m: "map ((r_heap st)(r_next st := arr)) (r_data st) = map (r_heap st) (r_data st)"
    by simp
  have cols: "columns (abs_table st) = r_columns st" "unique (abs_table st) = r_unique st"
    "uniqueMaps (abs_table st) = r_uniqueMaps st" "data (abs_table st) = map (r_heap st) (r_data st)"
    "nextId (abs_table st) = r_nextId st"
    by (simp_all add: abs_table_def)
  show ?thesis
    using l cols m fresh below d
    by (cases err)
       (simp_all add: ref_add_def Rows_add_def Let_def arr_def [symmetric] abs_table_def
          store_ok_def list_all_iff)
qed

subsection \<open>Arrays handed out by a read\<close>

lemma ref_get_in_data: "ref_get st ident = Some a \<Longrightarrow> a \<in> set (r_data st)"
  by (auto simp: ref_get_def find_Some_iff)

lemma ref_delete_heap: "r_heap (snd (ref_delete st ident)) = r_heap st"
  by (simp add: ref_delete_def Let_def split: option.splits prod.splits)

lemma ref_update_heap_other:
  assumes "a < r_next st" and "ref_get st ident \<noteq> Some a"
  shows "r_heap (snd (ref_update st ident updates)) a = r_heap st a"
  using assms
  by (auto simp: ref_update_def Let_def split: option.splits prod.splits error.splits)

lemma ref_update_heap_target:
  assumes "a < r_next st" and "ref_get st ident = Some a"
  shows "r_heap (snd (ref_update st ident updates)) a =
         apply_updates (r_columns st) updates (r_heap st a)"
  using assms
  by (auto simp: ref_update_def Let_def split: option.splits prod.splits error.splits)

lemma ref_update_accepted_get:
  assumes ok: "store_ok st" and g: "ref_get st ident = Some a"
    and acc: "fst (ref_update st ident updates) = None"
  shows "ref_get (snd (ref_update st ident updates)) ident = Some a"
proof -
  define old where "old = r_heap st a"
  define new where "new = apply_updates (r_columns st) updates old"
  define c where "c = r_next st"
  obtain err maps where l:
    "update_loop (r_columns st) old new 0 (r_unique st) (r_uniqueMaps st) = (err, maps)"
    by (cases "update_loop (r_columns st) old new 0 (r_unique st) (r_uniqueMaps st)")
  have e: "err = None"
  proof (cases err)
    case None
    then show ?thesis .
  next
    case (Some x)
    with acc g l show ?thesis
      by (cases x) (simp_all add: ref_update_def Let_def old_def [symmetric] new_def [symmetric])
  qed
  have st': "snd (ref_update st ident updates) =
      st\<lparr>r_heap := (r_heap st)(c := old, a := new), r_next := Suc c, r_uniqueMaps := maps\<rparr>"
    using g l e
    by (simp add: ref_update_def Let_def old_def [symmetric] new_def [symmetric] c_def [symmetric])
  have f: "find (\<lambda>b. js_nth (r_heap st b) 0 = ident) (r_data st) = Some a"
    using g by (simp add: ref_get_def)
  then have ida: "js_nth old 0 = ident" by (auto simp: find_Some_iff old_def)
  have fresh: "c \<notin> set (r_data st)"
    using ok by (auto simp: store_ok_def list_all_iff c_def)
  have "find (\<lambda>b. js_nth (((r_heap st)(c := old, a := new)) b) 0 = ident) (r_data st) =
        find (\<lambda>b. js_nth (r_heap st b) 0 = ident) (r_data st)"
  proof (rule find_cong [OF refl])
    fix b assume b: "b \<in> set (r_data st)"
    with fresh have bc: "b \<noteq> c" by auto
    show "(js_nth (((r_heap st)(c := old, a := new)) b) 0 = ident) =
          (js_nth (r_heap st b) 0 = ident)"
    proof (cases "b = a")
      case True
      then show ?thesis using ida by (simp add: new_def apply_updates_id old_def)
    next
      case False
      with bc show ?thesis by simp
    qed
  qed
  with f show ?thesis by (simp add: st' ref_get_def)
qed

text \<open>
  Claim C8, as the code has it. \<open>toArray\<close> hands out the rows' own arrays. A
  delete that follows writes to no array, so what was returned stays as it was. An
  update that follows leaves every returned array alone except the one of the row it
  updates. When that update is accepted, the array holds the updated values and is
  still the array of the row in the store: the caller reads what the store holds.
\<close>

theorem read_result_frame:
  assumes "store_ok st" and "a \<in> set (ref_read st flt)"
  shows "r_heap (snd (ref_delete st ident)) a = r_heap st a \<and>
         (ref_get st ident \<noteq> Some a \<longrightarrow>
            r_heap (snd (ref_update st ident updates)) a = r_heap st a) \<and>
         (ref_get st ident = Some a \<and> fst (ref_update st ident updates) = None \<longrightarrow>
            r_heap (snd (ref_update st ident updates)) a =
              apply_updates (r_columns st) updates (r_heap st a) \<and>
            ref_get (snd (ref_update st ident updates)) ident = Some a)"
proof -
  from assms(2) have "a \<in> set (r_data st)" by (simp add: ref_read_def)
  with assms(1) have "a < r_next st" by (simp add: store_ok_def list_all_iff)
  then show ?thesis
    using ref_update_heap_other ref_update_heap_target ref_update_accepted_get [OF assms(1)]
    by (simp add: ref_delete_heap)
qed

theorem read_result_frame_witness:
  "store_ok xy_store \<and> 0 \<in> set (ref_read xy_store []) \<and>
   r_heap (snd (ref_delete xy_store (VNum 1))) 0 = r_heap xy_store 0 \<and>
   ref_get xy_store (VNum 2) \<noteq> Some 0 \<and>
   r_heap (snd (ref_update xy_store (VNum 2) [(''x'', VNum 7)])) 0 = r_heap xy_store 0 \<and>
   ref_get xy_store (VNum 1) = Some 0 \<and>
   fst (ref_update xy_store (VNum 1) [(''x'', VNum 7)]) = None \<and>
   r_heap (snd (ref_update xy_store (VNum 1) [(''x'', VNum 7)])) 0 =
     apply_updates (r_columns xy_store) [(''x'', VNum 7)] (r_heap xy_store 0) \<and>
   ref_get (snd (ref_update xy_store (VNum 1) [(''x'', VNum 7)])) (VNum 1) = Some 0"
proof -
  have ok: "store_ok xy_store" by (simp add: store_ok_def xy_store_def)
  have r: "0 \<in> set (ref_read xy_store [])"
    by (simp add: ref_read_def xy_store_def row_matches_def keys_def)
  have g2: "ref_get xy_store (VNum 2) \<noteq> Some 0" by (simp add: ref_get_def xy_store_def js_nth_def)
  have g1: "ref_get xy_store (VNum 1) = Some 0" by (simp add: ref_get_def xy_store_def js_nth_def)
  have acc: "fst (ref_update xy_store (VNum 1) [(''x'', VNum 7)]) = None"
    by (simp add: xy_store_def ref_update_def ref_get_def js_nth_def apply_updates_def
        getIndex_def obj_get_def js_set_def getUniqueKey_def show_int_def digit_char_def
        keys_def Let_def)
  show ?thesis
    using read_result_frame [OF ok r, of "VNum 2" "[(''x'', VNum 7)]"]
      read_result_frame [OF ok r, of "VNum 1" "[(''x'', VNum 7)]"] ok r g1 g2 acc
    by simp
qed

text \<open>
  The claim as stated fails. The read of the scenario's table returns the arrays at
  addresses 0 and 1. After the accepted update of row 1 to \<open>x = 7\<close> the array at
  address 0, which the caller still holds, reads \<open>[1, 7, 2]\<close>.
\<close>

theorem read_result_changed_by_update:
  "ref_read xy_store [] = [0, 1] \<and>
   map (r_heap xy_store) (ref_read xy_store []) = [[VNum 1, VNum 1, VNum 2], [VNum 2, VNum 3, VNum 4]] \<and>
   fst (ref_update xy_store (VNum 1) [(''x'', VNum 7)]) = None \<and>
   map (r_heap (snd (ref_update xy_store (VNum 1) [(''x'', VNum 7)]))) (ref_read xy_store [])
     = [[VNum 1, VNum 7, VNum 2], [VNum 2, VNum 3, VNum 4]] \<and>
   data (abs_table (snd (ref_update xy_store (VNum 1) [(''x'', VNum 7)])))
     = [[VNum 1, VNum 7, VNum 2], [VNum 2, VNum 3, VNum 4]]"
  by (simp add: ref_read_def xy_store_def row_matches_def keys_def ref_update_def ref_get_def
      js_nth_def apply_updates_def getIndex_def obj_get_def js_set_def getUniqueKey_def
      show_int_def digit_char_def abs_table_def Let_def)

subsection \<open>A rejected update and the array handed out\<close>

text \<open>
  When \<open>Rows.update\<close> rejects an update it has already written the new values into
  the row's array, and it undoes this with \<open>row.data = oldData\<close>: the row gets the
  copy, the array written to is not restored. The array an earlier read handed out
  for row 1 reads \<open>[1, 3, 4]\<close> after the rejected update to \<open>(3, 4)\<close>, while the
  table is back to \<open>[1, 1, 2]\<close>.
\<close>

lemma rejected_update_detaches_array:
  "ref_read xy_store [] = [0, 1] \<and>
   fst (ref_update xy_store (VNum 1) [(''x'', VNum 3), (''y'', VNum 4)])
     = Some (UniqueViolation [''x'', ''y'']) \<and>
   map (r_heap (snd (ref_update xy_store (VNum 1) [(''x'', VNum 3), (''y'', VNum 4)])))
       (ref_read xy_store [])
     = [[VNum 1, VNum 3, VNum 4], [VNum 2, VNum 3, VNum 4]] \<and>
   data (abs_table (snd (ref_update xy_store (VNum 1) [(''x'', VNum 3), (''y'', VNum 4)])))
     = [[VNum 1, VNum 1, VNum 2], [VNum 2, VNum 3, VNum 4]]"
  by (simp add: ref_read_def xy_store_def row_matches_def keys_def ref_update_def ref_get_def
      js_nth_def apply_updates_def getIndex_def obj_get_def js_set_def getUniqueKey_def
      show_int_def digit_char_def abs_table_def Let_def)

section \<open>Cascading delete removes the dependents and nothing else\<close>

lemma normalize_idem: "normalize (normalize x) = normalize x"
  by (simp add: normalize_def)

lemma removed_trans:
  assumes "removed c c1 S1" and "removed c1 c2 S2"
  shows "removed c c2 (S1 \<union> S2)"
  unfolding removed_def
proof
  fix tn
  from assms have a: "case c tn of None \<Rightarrow> c1 tn = None
            | Some tab \<Rightarrow> (case c1 tn of None \<Rightarrow> False
                 | Some tab' \<Rightarrow> same_shape tab tab' \<and>
                     data tab' = filter (\<lambda>r. (tn, js_nth r 0) \<notin> S1) (data tab))"
    and b: "case c1 tn of None \<Rightarrow> c2 tn = None
            | Some tab \<Rightarrow> (case c2 tn of None \<Rightarrow> False
                 | Some tab' \<Rightarrow> same_shape tab tab' \<and>
                     data tab' = filter (\<lambda>r. (tn, js_nth r 0) \<notin> S2) (data tab))"
    by (simp_all add: removed_def)
  show "case c tn of None \<Rightarrow> c2 tn = None
            | Some tab \<Rightarrow> (case c2 tn of None \<Rightarrow> False
                 | Some tab' \<Rightarrow> same_shape tab tab' \<and>
                     data tab' = filter (\<lambda>r. (tn, js_nth r 0) \<notin> S1 \<union> S2) (data tab))"
  proof (cases "c tn")
    case None
    with a b show ?thesis by simp
  next
    case (Some tab)
    with a obtain tab1 where t1: "c1 tn = Some tab1" "same_shape tab tab1"
      "data tab1 = filter (\<lambda>r. (tn, js_nth r 0) \<notin> S1) (data tab)"
      by (cases "c1 tn") auto
    with b obtain tab2 where t2: "c2 tn = Some tab2" "same_shape tab1 tab2"
      "data tab2 = filter (\<lambda>r. (tn, js_nth r 0) \<notin> S2) (data tab1)"
      by (cases "c2 tn") auto
    have "filter (\<lambda>r. (tn, js_nth r 0) \<notin> S2) (filter (\<lambda>r. (tn, js_nth r 0) \<notin> S1) (data tab)) =
          filter (\<lambda>r. (tn, js_nth r 0) \<notin> S1 \<union> S2) (data tab)"
      by (induction "data tab") auto
    with Some t1 t2 show ?thesis by (simp add: same_shape_def)
  qed
qed

lemma removed_cong: "removed c c' S \<Longrightarrow> S = S' \<Longrightarrow> removed c c' S'"
  by simp

lemma removed_lookup:
  assumes "removed c c1 S"
  shows "c1 tn = Some tab1 \<longleftrightarrow>
         (\<exists>tab. c tn = Some tab \<and> c1 tn = Some tab1 \<and> same_shape tab tab1 \<and>
            data tab1 = filter (\<lambda>r. (tn, js_nth r 0) \<notin> S) (data tab))"
proof -
  from assms have "case c tn of None \<Rightarrow> c1 tn = None
            | Some tab \<Rightarrow> (case c1 tn of None \<Rightarrow> False
                 | Some tab' \<Rightarrow> same_shape tab tab' \<and>
                     data tab' = filter (\<lambda>r. (tn, js_nth r 0) \<notin> S) (data tab))"
    by (simp add: removed_def)
  then show ?thesis by (cases "c tn"; cases "c1 tn") auto
qed

lemma removed_lookup2:
  assumes "removed c c1 S" and "c tn = Some tab"
  shows "\<exists>tab1. c1 tn = Some tab1 \<and> same_shape tab tab1 \<and>
            data tab1 = filter (\<lambda>r. (tn, js_nth r 0) \<notin> S) (data tab)"
proof -
  from assms(1) have "case c tn of None \<Rightarrow> c1 tn = None
            | Some tab \<Rightarrow> (case c1 tn of None \<Rightarrow> False
                 | Some tab' \<Rightarrow> same_shape tab tab' \<and>
                     data tab' = filter (\<lambda>r. (tn, js_nth r 0) \<notin> S) (data tab))"
    by (simp add: removed_def)
  with assms(2) show ?thesis by (cases "c1 tn") auto
qed

lemma removed_columns:
  assumes "fk_columns_exist md c" and "removed c c1 S"
  shows "fk_columns_exist md c1"
  unfolding fk_columns_exist_def
proof (intro allI impI)
  fix t m fks col tab1
  assume h: "(t, m) \<in> set md" "foreignKeys m = Some fks" "col \<in> set (map fst fks)"
    "c1 (normalize t) = Some tab1"
  then obtain tab where "c (normalize t) = Some tab" "same_shape tab tab1"
    using removed_lookup [OF assms(2), of "normalize t" tab1] by auto
  moreover have "0 \<le> getIndex (columns tab) col"
    using assms(1) h(1,2,3) \<open>c (normalize t) = Some tab\<close> unfolding fk_columns_exist_def by blast
  ultimately show "0 \<le> getIndex (columns tab1) col" by (simp add: same_shape_def)
qed

lemma children_removed:
  assumes "removed c c1 S"
  shows "fk_children c1 t col i = fk_children c t col i - S"
proof (intro set_eqI iffI)
  fix y assume "y \<in> fk_children c1 t col i"
  then obtain r tab1 where y: "y = (normalize t, js_nth r 0)" and t1: "c1 (normalize t) = Some tab1"
    and r: "r \<in> set (data tab1)" and idx: "0 \<le> getIndex (columns tab1) col"
    "js_nth r (getIndex (columns tab1) col) = i"
    by (auto simp: fk_children_def)
  from t1 obtain tab where tab: "c (normalize t) = Some tab" "same_shape tab tab1"
    "data tab1 = filter (\<lambda>r. (normalize t, js_nth r 0) \<notin> S) (data tab)"
    using removed_lookup [OF assms, of "normalize t" tab1] by auto
  with y r idx show "y \<in> fk_children c t col i - S"
    by (auto simp: fk_children_def same_shape_def)
next
  fix y assume a: "y \<in> fk_children c t col i - S"
  then obtain r tab where y: "y = (normalize t, js_nth r 0)" and t0: "c (normalize t) = Some tab"
    and r: "r \<in> set (data tab)" and idx: "0 \<le> getIndex (columns tab) col"
    "js_nth r (getIndex (columns tab) col) = i"
    by (auto simp: fk_children_def)
  from removed_lookup2 [OF assms t0] obtain tab1 where
    "c1 (normalize t) = Some tab1" "same_shape tab tab1"
    "data tab1 = filter (\<lambda>r. (normalize t, js_nth r 0) \<notin> S) (data tab)" by auto
  with y r idx a show "y \<in> fk_children c1 t col i"
    by (auto simp: fk_children_def same_shape_def)
qed

lemma visits_removed:
  assumes "removed c c1 S"
  shows "visits md c1 x y \<longleftrightarrow> visits md c x y \<and> y \<notin> S"
  unfolding visits_def children_removed [OF assms] by auto

lemma reach_closed: "closed md c (reach md c Y)"
  unfolding closed_def reach_def by (auto intro: rtranclp.rtrancl_into_rtrancl)

lemma reach_Un: "reach md c (Y1 \<union> Y2) = reach md c Y1 \<union> reach md c Y2"
  unfolding reach_def by auto

lemma reach_of_closed:
  assumes "closed md c S"
  shows "reach md c S = S"
proof -
  have "(visits md c)\<^sup>*\<^sup>* y z \<Longrightarrow> y \<in> S \<Longrightarrow> z \<in> S" for y z
    by (induction rule: rtranclp_induct) (use assms in \<open>auto simp: closed_def\<close>)
  then show ?thesis unfolding reach_def by auto
qed

lemma reach_removed:
  assumes rem: "removed c c1 S" and cl: "closed md c S"
  shows "reach md c1 Y \<union> S = reach md c Y \<union> S"
proof (intro set_eqI iffI)
  fix z assume "z \<in> reach md c1 Y \<union> S"
  moreover have "(visits md c1)\<^sup>*\<^sup>* y z \<Longrightarrow> (visits md c)\<^sup>*\<^sup>* y z" for y
    by (induction rule: rtranclp_induct)
       (auto simp: visits_removed [OF rem] intro: rtranclp.rtrancl_into_rtrancl)
  ultimately show "z \<in> reach md c Y \<union> S" unfolding reach_def by auto
next
  fix z assume z: "z \<in> reach md c Y \<union> S"
  have "(visits md c)\<^sup>*\<^sup>* y z \<Longrightarrow> z \<notin> S \<Longrightarrow> (visits md c1)\<^sup>*\<^sup>* y z" for y
  proof (induction rule: rtranclp_induct)
    case base
    then show ?case by simp
  next
    case (step w z)
    then have "w \<notin> S" using cl unfolding closed_def by blast
    with step have "(visits md c1)\<^sup>*\<^sup>* y w" by simp
    moreover have "visits md c1 w z" using step by (simp add: visits_removed [OF rem])
    ultimately show ?case by (rule rtranclp.rtrancl_into_rtrancl)
  qed
  with z show "z \<in> reach md c1 Y \<union> S" unfolding reach_def by auto
qed

lemma removed_then_reach:
  assumes r1: "removed c c1 S1" and cl: "closed md c S1"
    and r2: "removed c1 c' (reach md c1 Y')" and Y: "Y' \<union> S1 = Y \<union> S1"
  shows "removed c c' (S1 \<union> reach md c Y)"
proof -
  have "reach md c Y' \<union> S1 = reach md c (Y' \<union> S1)"
    by (simp add: reach_Un reach_of_closed [OF cl])
  also have "\<dots> = reach md c Y \<union> S1" by (simp add: Y reach_Un reach_of_closed [OF cl])
  finally have "S1 \<union> reach md c1 Y' = S1 \<union> reach md c Y"
    using reach_removed [OF r1 cl, of Y'] by auto
  with removed_trans [OF r1 r2] show ?thesis by simp
qed


lemma removed_refl: "removed c c {}"
  by (simp add: removed_def same_shape_def split: option.splits)

lemma reach_empty: "reach md c {} = {}"
  by (simp add: reach_def)

lemma delete_rows_removed:
  assumes ok: "self_ok md self"
  shows "fk_columns_exist md c \<Longrightarrow> delete_rows self t rows c = Some (None, c') \<Longrightarrow>
         removed c c' (reach md c ((\<lambda>r. (normalize t, js_nth r 0)) ` set rows))"
proof (induction rows arbitrary: c)
  case Nil
  then show ?case by (simp add: reach_empty removed_refl)
next
  case (Cons r rs)
  from Cons.prems(2) obtain c1 where s: "self c t (js_nth r 0) = Some (None, c1)"
    and rest: "delete_rows self t rs c1 = Some (None, c')"
    by (auto split: option.splits prod.splits)
  have r1: "removed c c1 (reach md c {(normalize t, js_nth r 0)})"
    using ok Cons.prems(1) s unfolding self_ok_def by blast
  have e1: "fk_columns_exist md c1" using removed_columns [OF Cons.prems(1) r1] .
  have r2: "removed c1 c' (reach md c1 ((\<lambda>r. (normalize t, js_nth r 0)) ` set rs))"
    using Cons.IH [OF e1 rest] .
  have "removed c c' (reach md c {(normalize t, js_nth r 0)} \<union>
                      reach md c ((\<lambda>r. (normalize t, js_nth r 0)) ` set rs))"
    using removed_then_reach [OF r1 reach_closed r2] by simp
  then show ?case by (simp add: reach_Un [symmetric])
qed

lemma read_children:
  assumes rd: "Database_read c t [(col, i)] = Inr rows"
    and ex: "\<And>tab. c (normalize t) = Some tab \<Longrightarrow> 0 \<le> getIndex (columns tab) col"
  shows "(\<lambda>r. (normalize t, js_nth r 0)) ` set rows = fk_children c t col i"
proof -
  from rd obtain tab where tab: "c (normalize t) = Some tab" and rows: "rows = Rows_find tab [(col, i)]"
    by (auto simp: Database_read_def Tables_getTable_def split: option.splits)
  have idx: "0 \<le> getIndex (columns tab) col" using ex tab by simp
  have "row_matches (columns tab) [(col, i)] r \<longleftrightarrow> js_nth r (getIndex (columns tab) col) = i" for r
    using idx by (auto simp: row_matches_def keys_def obj_get_def Let_def)
  then have "set rows = {r \<in> set (data tab). js_nth r (getIndex (columns tab) col) = i}"
    by (auto simp: rows Rows_find_def)
  with tab idx show ?thesis by (auto simp: fk_children_def)
qed

lemma kids_cols_removed:
  assumes "removed c c1 S"
  shows "kids_cols c1 T i t fks cols = kids_cols c T i t fks cols - S"
  unfolding kids_cols_def children_removed [OF assms] by auto

lemma kids_tabs_removed:
  assumes "removed c c1 S"
  shows "kids_tabs c1 T i entries = kids_tabs c T i entries - S"
  unfolding kids_tabs_def kids_cols_removed [OF assms] by auto

lemma delete_cols_removed:
  assumes ok: "self_ok md self" and tm: "(t, m) \<in> set md" and fk: "foreignKeys m = Some fks"
  shows "set cols \<subseteq> set (map fst fks) \<Longrightarrow> fk_columns_exist md c \<Longrightarrow>
         delete_cols self T i t fks cols c = Some (None, c') \<Longrightarrow>
         removed c c' (reach md c (kids_cols c T i t fks cols))"
proof (induction cols arbitrary: c)
  case Nil
  then show ?case by (simp add: kids_cols_def reach_empty removed_refl)
next
  case (Cons col cols)
  from Cons.prems(1) have sub: "set cols \<subseteq> set (map fst fks)" and colin: "col \<in> set (map fst fks)"
    by auto
  show ?case
  proof (cases "map_of fks col = Some T")
    case False
    with Cons.prems(3) have rest: "delete_cols self T i t fks cols c = Some (None, c')" by simp
    have "kids_cols c T i t fks (col # cols) = kids_cols c T i t fks cols"
      using False by (auto simp: kids_cols_def)
    with Cons.IH [OF sub Cons.prems(2) rest] show ?thesis by simp
  next
    case True
    with Cons.prems(3) obtain rows c1 where rd: "Database_read c t [(col, i)] = Inr rows"
      and dr: "delete_rows self t rows c = Some (None, c1)"
      and rest: "delete_cols self T i t fks cols c1 = Some (None, c')"
      by (auto split: sum.splits option.splits prod.splits)
    have ex: "\<And>tab. c (normalize t) = Some tab \<Longrightarrow> 0 \<le> getIndex (columns tab) col"
      using Cons.prems(2) tm fk colin unfolding fk_columns_exist_def by blast
    have k1: "(\<lambda>r. (normalize t, js_nth r 0)) ` set rows = fk_children c t col i"
      using read_children [OF rd ex] .
    have r1: "removed c c1 (reach md c (fk_children c t col i))"
      using delete_rows_removed [OF ok Cons.prems(2) dr] k1 by simp
    have e1: "fk_columns_exist md c1" using removed_columns [OF Cons.prems(2) r1] .
    have r2: "removed c1 c' (reach md c1 (kids_cols c1 T i t fks cols))"
      using Cons.IH [OF sub e1 rest] .
    have Y: "kids_cols c1 T i t fks cols \<union> reach md c (fk_children c t col i) =
             kids_cols c T i t fks cols \<union> reach md c (fk_children c t col i)"
      unfolding kids_cols_removed [OF r1] by auto
    have "removed c c' (reach md c (fk_children c t col i) \<union> reach md c (kids_cols c T i t fks cols))"
      using removed_then_reach [OF r1 reach_closed r2 Y] .
    moreover have "kids_cols c T i t fks (col # cols) =
                   fk_children c t col i \<union> kids_cols c T i t fks cols"
      using True by (auto simp: kids_cols_def)
    ultimately show ?thesis by (simp add: reach_Un)
  qed
qed

lemma delete_tables_removed:
  assumes ok: "self_ok md self"
  shows "set entries \<subseteq> set md \<Longrightarrow> fk_columns_exist md c \<Longrightarrow>
         delete_tables self T i entries c = Some (None, c') \<Longrightarrow>
         removed c c' (reach md c (kids_tabs c T i entries))"
proof (induction entries arbitrary: c)
  case Nil
  then show ?case by (simp add: kids_tabs_def reach_empty removed_refl)
next
  case (Cons e entries)
  obtain t m where e: "e = (t, m)" by (cases e)
  from Cons.prems(1) e have sub: "set entries \<subseteq> set md" and tm: "(t, m) \<in> set md" by auto
  show ?case
  proof (cases "foreignKeys m")
    case None
    with Cons.prems(3) e have rest: "delete_tables self T i entries c = Some (None, c')" by simp
    have "kids_tabs c T i (e # entries) = kids_tabs c T i entries"
      using None e by (auto simp: kids_tabs_def)
    with Cons.IH [OF sub Cons.prems(2) rest] show ?thesis by simp
  next
    case (Some fks)
    with Cons.prems(3) e obtain c1 where
      dc: "delete_cols self T i t fks (map fst fks) c = Some (None, c1)"
      and rest: "delete_tables self T i entries c1 = Some (None, c')"
      by (auto split: option.splits prod.splits)
    have r1: "removed c c1 (reach md c (kids_cols c T i t fks (map fst fks)))"
      using delete_cols_removed [OF ok tm Some _ Cons.prems(2) dc] by simp
    have e1: "fk_columns_exist md c1" using removed_columns [OF Cons.prems(2) r1] .
    have r2: "removed c1 c' (reach md c1 (kids_tabs c1 T i entries))"
      using Cons.IH [OF sub e1 rest] .
    have Y: "kids_tabs c1 T i entries \<union> reach md c (kids_cols c T i t fks (map fst fks)) =
             kids_tabs c T i entries \<union> reach md c (kids_cols c T i t fks (map fst fks))"
      unfolding kids_tabs_removed [OF r1] by auto
    have "removed c c' (reach md c (kids_cols c T i t fks (map fst fks)) \<union>
                        reach md c (kids_tabs c T i entries))"
      using removed_then_reach [OF r1 reach_closed r2 Y] .
    moreover have "kids_tabs c T i (e # entries) =
                   kids_cols c T i t fks (map fst fks) \<union> kids_tabs c T i entries"
      using Some e by (auto simp: kids_tabs_def)
    ultimately show ?thesis by (simp add: reach_Un)
  qed
qed

lemma kids_tabs_visits: "kids_tabs c T i md = {y. visits md c (T, i) y}"
proof (intro set_eqI iffI)
  fix y assume "y \<in> kids_tabs c T i md"
  then show "y \<in> {y. visits md c (T, i) y}"
    by (auto simp: kids_tabs_def kids_cols_def visits_def)
next
  fix y assume "y \<in> {y. visits md c (T, i) y}"
  then obtain t m fks col where h: "(t, m) \<in> set md" "foreignKeys m = Some fks"
    "map_of fks col = Some T" "y \<in> fk_children c t col i"
    by (auto simp: visits_def)
  from h(3) have "(col, T) \<in> set fks" by (rule map_of_SomeD)
  then have "col \<in> set (map fst fks)" by force
  with h show "y \<in> kids_tabs c T i md"
    unfolding kids_tabs_def kids_cols_def by blast
qed

lemma find_None_filter: "find P xs = None \<Longrightarrow> filter (\<lambda>x. \<not> P x) xs = xs"
  by (induction xs) (auto split: if_splits)

lemma delete_loop_length:
  "delete_loop names row i ucs maps = (e, maps') \<Longrightarrow> length maps' = length maps"
  by (induction ucs arbitrary: i maps) (auto split: if_splits)

lemma Rows_delete_data:
  "Rows_delete tab j = (None, tab') \<Longrightarrow>
   same_shape tab tab' \<and> data tab' = filter (\<lambda>r. js_nth r 0 \<noteq> j) (data tab)"
  by (auto simp: Rows_delete_def Rows_get_def Let_def find_None_filter same_shape_def
      delete_loop_length split: option.splits prod.splits)

lemma Database_delete_removed:
  assumes "Database_delete c T j = (None, c')"
  shows "removed c c' {(normalize T, j)}"
proof -
  from assms obtain tab tab' where tab: "c (normalize T) = Some tab"
    and rd: "Rows_delete tab j = (None, tab')" and c': "c' = c(normalize T \<mapsto> tab')"
    by (auto simp: Database_delete_def Tables_getTable_def Let_def split: option.splits prod.splits)
  from Rows_delete_data [OF rd] have d: "same_shape tab tab'"
    "data tab' = filter (\<lambda>r. js_nth r 0 \<noteq> j) (data tab)" by auto
  show ?thesis
    unfolding removed_def
  proof
    fix tn
    show "case c tn of None \<Rightarrow> c' tn = None
          | Some tab \<Rightarrow> (case c' tn of None \<Rightarrow> False
               | Some tab' \<Rightarrow> same_shape tab tab' \<and>
                   data tab' = filter (\<lambda>r. (tn, js_nth r 0) \<notin> {(normalize T, j)}) (data tab))"
      using tab d c' by (cases "tn = normalize T") (auto simp: same_shape_def split: option.splits)
  qed
qed

lemma reach_single:
  "reach md c {x} = insert x (reach md c {y. visits md c x y})"
proof (intro set_eqI iffI)
  fix z assume "z \<in> reach md c {x}"
  then have "(visits md c)\<^sup>*\<^sup>* x z" by (simp add: reach_def)
  then show "z \<in> insert x (reach md c {y. visits md c x y})"
    by (cases rule: converse_rtranclpE) (auto simp: reach_def)
next
  fix z assume "z \<in> insert x (reach md c {y. visits md c x y})"
  then show "z \<in> reach md c {x}"
    by (auto simp: reach_def intro: converse_rtranclp_into_rtranclp)
qed

lemma Crud_delete_self_ok: "self_ok md (Crud_delete depth md)"
proof (induction depth)
  case 0
  show ?case by (simp add: self_ok_def)
next
  case (Suc depth)
  show ?case
    unfolding self_ok_def
  proof (intro allI impI)
    fix c t j c'
    assume ex: "fk_columns_exist md c" and run: "Crud_delete (Suc depth) md c t j = Some (None, c')"
    from run obtain c1 where
      dt: "delete_tables (Crud_delete depth md) (normalize t) j md c = Some (None, c1)"
      and dd: "Database_delete c1 (normalize t) j = (None, c')"
      by (auto split: option.splits prod.splits)
    have r1: "removed c c1 (reach md c (kids_tabs c (normalize t) j md))"
      using delete_tables_removed [OF Suc _ ex dt] by simp
    have r2: "removed c1 c' {(normalize t, j)}"
      using Database_delete_removed [OF dd] by (simp add: normalize_idem)
    have "removed c c' (reach md c (kids_tabs c (normalize t) j md) \<union> {(normalize t, j)})"
      using removed_trans [OF r1 r2] .
    then show "removed c c' (reach md c {(normalize t, j)})"
      by (simp add: reach_single [of md c "(normalize t, j)"] kids_tabs_visits Un_commute)
  qed
qed

lemma reach_root: "reach md c {x} = insert x (cascaded md c x)"
  by (auto simp: reach_def cascaded_def dest: rtranclpD intro: tranclp_into_rtranclp)

lemma reach_kids: "reach md c {y. visits md c x y} = cascaded md c x"
proof (intro set_eqI iffI)
  fix z assume "z \<in> reach md c {y. visits md c x y}"
  then show "z \<in> cascaded md c x"
    by (auto simp: reach_def cascaded_def intro: rtranclp_into_tranclp2)
next
  fix z assume "z \<in> cascaded md c x"
  then have "(visits md c)\<^sup>+\<^sup>+ x z" by (simp add: cascaded_def)
  then obtain y where "visits md c x y" "(visits md c)\<^sup>*\<^sup>* y z"
    by (auto dest: tranclpD)
  then show "z \<in> reach md c {y. visits md c x y}" unfolding reach_def by blast
qed

lemma cascade_delete_partial:
  assumes ex: "fk_columns_exist md cat"
    and run: "Crud_delete depth md cat tableName ident = Some (None, cat')"
  shows "removed cat cat' (insert (normalize tableName, ident)
                             (cascaded md cat (normalize tableName, ident))) \<and>
         (\<exists>cat1. delete_tables (Crud_delete (depth - 1) md) (normalize tableName) ident md cat
                    = Some (None, cat1) \<and>
                  removed cat cat1 (cascaded md cat (normalize tableName, ident)) \<and>
                  (\<forall>y. \<not> visits md cat1 (normalize tableName, ident) y) \<and>
                  Database_delete cat1 (normalize tableName) ident = (None, cat'))"
proof -
  let ?root = "(normalize tableName, ident)"
  obtain d where d: "depth = Suc d" using run by (cases depth) auto
  from run d obtain cat1 where
    dt: "delete_tables (Crud_delete d md) (normalize tableName) ident md cat = Some (None, cat1)"
    and dd: "Database_delete cat1 (normalize tableName) ident = (None, cat')"
    by (auto split: option.splits prod.splits)
  have r1: "removed cat cat1 (cascaded md cat ?root)"
    using delete_tables_removed [OF Crud_delete_self_ok _ ex dt]
    by (simp add: kids_tabs_visits reach_kids)
  have "removed cat cat' (reach md cat {?root})"
    using Crud_delete_self_ok [of md depth] ex run unfolding self_ok_def by blast
  then have r: "removed cat cat' (insert ?root (cascaded md cat ?root))"
    by (simp add: reach_root)
  have "\<not> visits md cat1 ?root y" for y
  proof
    assume a: "visits md cat1 ?root y"
    then have "visits md cat ?root y" "y \<notin> cascaded md cat ?root"
      using visits_removed [OF r1] by auto
    then show False by (auto simp: cascaded_def)
  qed
  with r r1 dt dd d show ?thesis by auto
qed

subsection \<open>The result does not depend on the depth allowed\<close>

lemma delete_rows_mono:
  assumes "extends_to self self'"
  shows "delete_rows self t rows c = Some r \<Longrightarrow> delete_rows self' t rows c = Some r"
proof (induction rows arbitrary: c)
  case Nil
  then show ?case by simp
next
  case (Cons x xs)
  from Cons.prems obtain e c1 where s: "self c t (js_nth x 0) = Some (e, c1)"
    by (cases "self c t (js_nth x 0)") auto
  then have s': "self' c t (js_nth x 0) = Some (e, c1)"
    using assms by (simp add: extends_to_def)
  show ?case
  proof (cases e)
    case None
    with Cons.prems s have "delete_rows self t xs c1 = Some r" by simp
    from Cons.IH [OF this] s' None show ?thesis by simp
  next
    case (Some err)
    with Cons.prems s s' show ?thesis by auto
  qed
qed

lemma delete_cols_mono:
  assumes "extends_to self self'"
  shows "delete_cols self T i t fks cols c = Some r \<Longrightarrow> delete_cols self' T i t fks cols c = Some r"
proof (induction cols arbitrary: c)
  case Nil
  then show ?case by simp
next
  case (Cons col cols)
  show ?case
  proof (cases "map_of fks col = Some T")
    case False
    with Cons show ?thesis by simp
  next
    case True
    show ?thesis
    proof (cases "Database_read c t [(col, i)]")
      case (Inl e)
      with True Cons.prems show ?thesis by simp
    next
      case (Inr rows)
      with True Cons.prems obtain e c1 where d: "delete_rows self t rows c = Some (e, c1)"
        by (cases "delete_rows self t rows c") auto
      have d': "delete_rows self' t rows c = Some (e, c1)"
        using delete_rows_mono [OF assms d] .
      show ?thesis
      proof (cases e)
        case None
        with Cons.prems True Inr d have "delete_cols self T i t fks cols c1 = Some r" by simp
        from Cons.IH [OF this] True Inr d' None show ?thesis by simp
      next
        case (Some err)
        with Cons.prems True Inr d d' show ?thesis by auto
      qed
    qed
  qed
qed

lemma delete_tables_mono:
  assumes "extends_to self self'"
  shows "delete_tables self T i entries c = Some r \<Longrightarrow> delete_tables self' T i entries c = Some r"
proof (induction entries arbitrary: c)
  case Nil
  then show ?case by simp
next
  case (Cons en entries)
  obtain t m where en: "en = (t, m)" by (cases en)
  show ?case
  proof (cases "foreignKeys m")
    case None
    with Cons en show ?thesis by simp
  next
    case (Some fks)
    with Cons.prems en obtain e c1 where
      d: "delete_cols self T i t fks (map fst fks) c = Some (e, c1)"
      by (cases "delete_cols self T i t fks (map fst fks) c") auto
    have d': "delete_cols self' T i t fks (map fst fks) c = Some (e, c1)"
      using delete_cols_mono [OF assms d] .
    show ?thesis
    proof (cases e)
      case None
      with Cons.prems en Some d have "delete_tables self T i entries c1 = Some r" by simp
      from Cons.IH [OF this] en Some d' None show ?thesis by simp
    next
      case (Some err)
      with Cons.prems en \<open>foreignKeys m = Some fks\<close> d d' show ?thesis by auto
    qed
  qed
qed

lemma Crud_delete_Suc: "extends_to (Crud_delete depth md) (Crud_delete (Suc depth) md)"
proof (induction depth)
  case 0
  show ?case by (simp add: extends_to_def)
next
  case (Suc depth)
  show ?case
    unfolding extends_to_def
  proof (intro allI impI)
    fix c t j r
    assume a: "Crud_delete (Suc depth) md c t j = Some r"
    then obtain e c1 where
      d: "delete_tables (Crud_delete depth md) (normalize t) j md c = Some (e, c1)"
      by (cases "delete_tables (Crud_delete depth md) (normalize t) j md c") auto
    have d': "delete_tables (Crud_delete (Suc depth) md) (normalize t) j md c = Some (e, c1)"
      using delete_tables_mono [OF Suc d] .
    from a d d' show "Crud_delete (Suc (Suc depth)) md c t j = Some r"
      by (cases e) auto
  qed
qed

lemma Crud_delete_mono:
  "Crud_delete depth md c t j = Some r \<Longrightarrow> depth \<le> depth' \<Longrightarrow> Crud_delete depth' md c t j = Some r"
proof (induction depth' arbitrary: )
  case 0
  then show ?case by simp
next
  case (Suc depth')
  show ?case
  proof (cases "depth = Suc depth'")
    case True
    with Suc.prems show ?thesis by simp
  next
    case False
    with Suc.prems have "depth \<le> depth'" by simp
    from Suc.IH [OF Suc.prems(1) this] Crud_delete_Suc [of depth' md] show ?thesis
      unfolding extends_to_def by blast
  qed
qed

subsection \<open>Without a cycle the cascade returns\<close>

lemma closed_Un: "closed md c A \<Longrightarrow> closed md c B \<Longrightarrow> closed md c (A \<union> B)"
  unfolding closed_def by blast

lemma closed_empty: "closed md c {}"
  by (simp add: closed_def)

lemma reduced_step:
  assumes rem: "removed cat c S" and cl: "closed md cat S" and r1: "removed c c1 (reach md c Y)"
  shows "removed cat c1 (S \<union> reach md cat Y) \<and> closed md cat (S \<union> reach md cat Y)"
proof -
  have "S \<union> reach md c Y = S \<union> reach md cat Y"
    using reach_removed [OF rem cl, of Y] by auto
  with removed_trans [OF rem r1] have "removed cat c1 (S \<union> reach md cat Y)" by simp
  moreover have "closed md cat (S \<union> reach md cat Y)"
    using closed_Un [OF cl reach_closed] .
  ultimately show ?thesis by simp
qed

lemma removed_tables_exist:
  assumes "tables_exist md c" and "removed c c1 S"
  shows "tables_exist md c1"
  unfolding tables_exist_def
proof (intro allI impI)
  fix t m assume h: "(t, m) \<in> set md" "foreignKeys m \<noteq> None"
  with assms(1) obtain tab where "c (normalize t) = Some tab"
    unfolding tables_exist_def by blast
  from removed_lookup2 [OF assms(2) this] show "c1 (normalize t) \<noteq> None" by auto
qed

lemma removed_aligned:
  assumes "aligned c" and "removed c c1 S"
  shows "aligned c1"
  unfolding aligned_def
proof (intro allI impI)
  fix tn tab1 assume "c1 tn = Some tab1"
  then obtain tab where "c tn = Some tab" "same_shape tab tab1"
    using removed_lookup [OF assms(2), of tn tab1] by auto
  with assms(1) show "length (unique tab1) \<le> length (uniqueMaps tab1)"
    unfolding aligned_def same_shape_def by fastforce
qed

lemma delete_rows_succeeds:
  assumes ok: "self_ok md self" and tot: "succeeds_on md cat self Ch" and ex: "fk_columns_exist md cat"
  shows "removed cat c S \<Longrightarrow> closed md cat S \<Longrightarrow>
         (\<lambda>r. (normalize t, js_nth r 0)) ` set rows \<subseteq> Ch \<Longrightarrow>
         \<exists>c'. delete_rows self t rows c = Some (None, c')"
proof (induction rows arbitrary: c S)
  case Nil
  show ?case by simp
next
  case (Cons r rs)
  have "(normalize t, js_nth r 0) \<in> Ch" using Cons.prems(3) by simp
  then obtain c1 where s: "self c t (js_nth r 0) = Some (None, c1)"
    using tot Cons.prems(1,2) unfolding succeeds_on_def by blast
  have exc: "fk_columns_exist md c" using removed_columns [OF ex Cons.prems(1)] .
  have "removed c c1 (reach md c {(normalize t, js_nth r 0)})"
    using ok exc s unfolding self_ok_def by blast
  from reduced_step [OF Cons.prems(1,2) this]
  have "\<exists>c'. delete_rows self t rs c1 = Some (None, c')"
    using Cons.IH Cons.prems(3) by auto
  with s show ?case by simp
qed

lemma delete_cols_succeeds:
  assumes ok: "self_ok md self" and tot: "succeeds_on md cat self Ch" and ex: "fk_columns_exist md cat"
    and te: "tables_exist md cat"
    and tm: "(t, m) \<in> set md" and fk: "foreignKeys m = Some fks"
    and ch: "{y. visits md cat (T, i) y} \<subseteq> Ch"
  shows "set cols \<subseteq> set (map fst fks) \<Longrightarrow> removed cat c S \<Longrightarrow> closed md cat S \<Longrightarrow>
         \<exists>c'. delete_cols self T i t fks cols c = Some (None, c')"
proof (induction cols arbitrary: c S)
  case Nil
  show ?case by simp
next
  case (Cons col cols)
  from Cons.prems(1) have sub: "set cols \<subseteq> set (map fst fks)" and colin: "col \<in> set (map fst fks)"
    by auto
  show ?case
  proof (cases "map_of fks col = Some T")
    case False
    with Cons.IH [OF sub Cons.prems(2,3)] show ?thesis by simp
  next
    case True
    have "tables_exist md c" using removed_tables_exist [OF te Cons.prems(2)] .
    then obtain tab where tab: "c (normalize t) = Some tab"
      using tm fk unfolding tables_exist_def by fastforce
    then obtain rows where rd: "Database_read c t [(col, i)] = Inr rows"
      by (simp add: Database_read_def Tables_getTable_def)
    have exc: "fk_columns_exist md c" using removed_columns [OF ex Cons.prems(2)] .
    have exi: "\<And>tab. c (normalize t) = Some tab \<Longrightarrow> 0 \<le> getIndex (columns tab) col"
      using exc tm fk colin unfolding fk_columns_exist_def by blast
    have k: "(\<lambda>r. (normalize t, js_nth r 0)) ` set rows = fk_children c t col i"
      using read_children [OF rd exi] .
    have "fk_children c t col i \<subseteq> {y. visits md c (T, i) y}"
      using tm fk True unfolding visits_def by auto
    also have "\<dots> \<subseteq> {y. visits md cat (T, i) y}"
      using visits_removed [OF Cons.prems(2)] by auto
    finally have sub': "(\<lambda>r. (normalize t, js_nth r 0)) ` set rows \<subseteq> Ch" using k ch by simp
    obtain c1 where d: "delete_rows self t rows c = Some (None, c1)"
      using delete_rows_succeeds [OF ok tot ex Cons.prems(2,3) sub'] by blast
    have "removed c c1 (reach md c ((\<lambda>r. (normalize t, js_nth r 0)) ` set rows))"
      using delete_rows_removed [OF ok exc d] .
    from reduced_step [OF Cons.prems(2,3) this]
    have "\<exists>c'. delete_cols self T i t fks cols c1 = Some (None, c')"
      using Cons.IH [OF sub] by auto
    with True rd d show ?thesis by simp
  qed
qed

lemma delete_tables_succeeds:
  assumes ok: "self_ok md self" and tot: "succeeds_on md cat self Ch" and ex: "fk_columns_exist md cat"
    and te: "tables_exist md cat"
    and ch: "{y. visits md cat (T, i) y} \<subseteq> Ch"
  shows "set entries \<subseteq> set md \<Longrightarrow> removed cat c S \<Longrightarrow> closed md cat S \<Longrightarrow>
         \<exists>c'. delete_tables self T i entries c = Some (None, c')"
proof (induction entries arbitrary: c S)
  case Nil
  show ?case by simp
next
  case (Cons en entries)
  obtain t m where en: "en = (t, m)" by (cases en)
  from Cons.prems(1) en have sub: "set entries \<subseteq> set md" and tm: "(t, m) \<in> set md" by auto
  show ?case
  proof (cases "foreignKeys m")
    case None
    with Cons.IH [OF sub Cons.prems(2,3)] en show ?thesis by simp
  next
    case (Some fks)
    have exc: "fk_columns_exist md c" using removed_columns [OF ex Cons.prems(2)] .
    have "\<exists>c1. delete_cols self T i t fks (map fst fks) c = Some (None, c1)"
      by (rule delete_cols_succeeds [OF ok tot ex te tm Some ch subset_refl Cons.prems(2,3)])
    then obtain c1 where d: "delete_cols self T i t fks (map fst fks) c = Some (None, c1)" ..
    have "removed c c1 (reach md c (kids_cols c T i t fks (map fst fks)))"
      using delete_cols_removed [OF ok tm Some _ exc d] by simp
    from reduced_step [OF Cons.prems(2,3) this]
    have "\<exists>c'. delete_tables self T i entries c1 = Some (None, c')"
      using Cons.IH [OF sub] by auto
    with en Some d show ?thesis by simp
  qed
qed

lemma Database_delete_succeeds:
  assumes "c (normalize T) = Some tab" and "length (unique tab) \<le> length (uniqueMaps tab)"
  shows "\<exists>c'. Database_delete c T j = (None, c')"
proof -
  have "fst (Rows_delete tab j) = None"
  proof (cases "Rows_get tab j")
    case None
    then show ?thesis by (simp add: Rows_delete_def)
  next
    case (Some row)
    from delete_loop_ok [of 0 "unique tab" "uniqueMaps tab" "columns tab" row] assms(2)
    obtain maps' where "delete_loop (columns tab) row 0 (unique tab) (uniqueMaps tab) = (None, maps')"
      by auto
    with Some show ?thesis by (simp add: Rows_delete_def)
  qed
  with assms(1) show ?thesis
    by (auto simp: Database_delete_def Tables_getTable_def Let_def split: prod.splits)
qed

lemma Crud_delete_succeeds_node:
  assumes ex: "fk_columns_exist md cat" and te: "tables_exist md cat" and al: "aligned cat"
    and wf: "wfp (\<lambda>y x. visits md cat x y)"
    and fin: "\<And>x. finite {y. visits md cat x y}"
  shows "cat (fst x) \<noteq> None \<Longrightarrow>
         \<exists>d. \<forall>c S t. removed cat c S \<longrightarrow> closed md cat S \<longrightarrow> normalize t = fst x \<longrightarrow>
           (\<exists>c'. Crud_delete d md c t (snd x) = Some (None, c'))"
  using wf
proof (induction x rule: wfp_induct_rule)
  case (less x)
  let ?Ch = "{y. visits md cat x y}"
  let ?P = "\<lambda>y d. \<forall>c S t. removed cat c S \<longrightarrow> closed md cat S \<longrightarrow> normalize t = fst y \<longrightarrow>
           (\<exists>c'. Crud_delete d md c t (snd y) = Some (None, c'))"
  have "cat (fst y) \<noteq> None" if "y \<in> ?Ch" for y
    using that by (auto simp: visits_def fk_children_def)
  then have "\<forall>y \<in> ?Ch. \<exists>d. ?P y d" using less.IH by blast
  then obtain f where f: "\<forall>y \<in> ?Ch. ?P y (f y)"
    using finite_set_choice [OF fin [of x], of ?P] by blast
  define D where "D = Max (insert 0 (f ` ?Ch))"
  have fD: "\<forall>y \<in> ?Ch. f y \<le> D"
    using fin [of x] by (simp add: D_def)
  have tot: "succeeds_on md cat (Crud_delete D md) ?Ch"
    unfolding succeeds_on_def
  proof (intro allI impI)
    fix c S t j
    assume a: "removed cat c S" "closed md cat S" "(normalize t, j) \<in> ?Ch"
    then obtain c' where "Crud_delete (f (normalize t, j)) md c t j = Some (None, c')"
      using f by fastforce
    from Crud_delete_mono [OF this] fD a(3)
    show "\<exists>c'. Crud_delete D md c t j = Some (None, c')" by fastforce
  qed
  have "?P x (Suc D)"
  proof (intro allI impI)
    fix c S t
    assume a: "removed cat c S" "closed md cat S" "normalize t = fst x"
    have ch: "{y. visits md cat (normalize t, snd x) y} \<subseteq> ?Ch" using a(3) by simp
    obtain c1 where dt: "delete_tables (Crud_delete D md) (normalize t) (snd x) md c = Some (None, c1)"
      using delete_tables_succeeds [OF Crud_delete_self_ok tot ex te ch _ a(1,2)] by auto
    have exc: "fk_columns_exist md c" using removed_columns [OF ex a(1)] .
    have "removed c c1 (reach md c (kids_tabs c (normalize t) (snd x) md))"
      using delete_tables_removed [OF Crud_delete_self_ok _ exc dt] by simp
    from reduced_step [OF a(1,2) this] obtain S' where r: "removed cat c1 S'" by blast
    from less.prems obtain tab where "cat (fst x) = Some tab" by auto
    from removed_lookup2 [OF r this] obtain tab1 where t1: "c1 (fst x) = Some tab1" by auto
    have "aligned c1" using removed_aligned [OF al r] .
    with t1 have "length (unique tab1) \<le> length (uniqueMaps tab1)"
      unfolding aligned_def by blast
    moreover have "normalize (normalize t) = fst x"
      using a(3) normalize_idem [of t] by simp
    then have "c1 (normalize (normalize t)) = Some tab1"
      using t1 by simp
    ultimately obtain c' where "Database_delete c1 (normalize t) (snd x) = (None, c')"
      using Database_delete_succeeds [of c1 "normalize t" tab1 "snd x"] by blast
    with dt show "\<exists>c'. Crud_delete (Suc D) md c t (snd x) = Some (None, c')" by simp
  qed
  then show ?case by blast
qed

lemma visits_finite: "finite {(x, y). visits md cat x y}"
proof -
  define Y where "Y = (\<Union>(t, m) \<in> set md. case cat (normalize t) of None \<Rightarrow> {}
      | Some tab \<Rightarrow> (\<lambda>r. (normalize t, js_nth r 0)) ` set (data tab))"
  define X where "X = (\<Union>(t, m) \<in> set md. case foreignKeys m of None \<Rightarrow> {}
      | Some fks \<Rightarrow> (case cat (normalize t) of None \<Rightarrow> {}
          | Some tab \<Rightarrow> (\<lambda>(p, r). (snd p, js_nth r (getIndex (columns tab) (fst p)))) `
                          (set fks \<times> set (data tab))))"
  have fY: "finite Y" unfolding Y_def by (auto split: option.splits)
  have fX: "finite X" unfolding X_def by (auto split: option.splits)
  have "{(x, y). visits md cat x y} \<subseteq> X \<times> Y"
  proof (clarify)
    fix a b c d assume "visits md cat (a, b) (c, d)"
    then obtain t m fks col r tab where h: "(t, m) \<in> set md" "foreignKeys m = Some fks"
      "map_of fks col = Some a" "c = normalize t" "d = js_nth r 0" "cat (normalize t) = Some tab"
      "r \<in> set (data tab)" "js_nth r (getIndex (columns tab) col) = b"
      by (auto simp: visits_def fk_children_def)
    from h(3) have p: "(col, a) \<in> set fks" by (rule map_of_SomeD)
    have "(a, b) \<in> (\<lambda>(p, r). (snd p, js_nth r (getIndex (columns tab) (fst p)))) `
                          (set fks \<times> set (data tab))"
      using p h(7,8) by force
    then have "(a, b) \<in> X" unfolding X_def using h(1,2,6) by force
    moreover have "(c, d) \<in> Y" unfolding Y_def using h(1,4,5,6,7) by force
    ultimately show "(a, b) \<in> X \<and> (c, d) \<in> Y" by simp
  qed
  then show ?thesis using fX fY by (meson finite_SigmaI finite_subset)
qed

lemma visits_children_finite: "finite {y. visits md cat x y}"
proof -
  have "y \<in> snd ` {(x, y). visits md cat x y}" if "visits md cat x y" for y
    using that by (intro image_eqI [of _ _ "(x, y)"]) simp_all
  then have "{y. visits md cat x y} \<subseteq> snd ` {(x, y). visits md cat x y}" by blast
  then show ?thesis using visits_finite [of md cat] by (meson finite_imageI finite_subset)
qed

lemma acyclic_visits_wfp:
  assumes "\<forall>x. x \<notin> cascaded md cat x"
  shows "wfp (\<lambda>y x. visits md cat x y)"
proof -
  let ?r = "{(x, y). visits md cat x y}"
  have "(\<lambda>x y. (x, y) \<in> ?r\<^sup>+) = (visits md cat)\<^sup>+\<^sup>+"
    using tranclp_trancl_eq [of ?r] by simp
  then have "(x, x) \<notin> ?r\<^sup>+" for x
    using assms unfolding cascaded_def by (metis mem_Collect_eq)
  then have "acyclic ?r" by (simp add: acyclic_def)
  then have "wf (?r\<inverse>)" using visits_finite by (rule finite_acyclic_wf_converse [rotated])
  moreover have "?r\<inverse> = {(y, x). visits md cat x y}" by auto
  ultimately show ?thesis by (simp add: wfp_def)
qed

text \<open>
  What a call that returns has removed, and when it returns, in terms of the rows
  the cascade visits.
\<close>

lemma cascade_follows_visits:
  assumes ex: "fk_columns_exist md cat"
  shows "(Crud_delete depth md cat tableName ident = Some (None, cat') \<longrightarrow>
            removed cat cat' (insert (normalize tableName, ident)
                                (cascaded md cat (normalize tableName, ident))) \<and>
            (\<exists>cat1. delete_tables (Crud_delete (depth - 1) md) (normalize tableName) ident md cat
                       = Some (None, cat1) \<and>
                     removed cat cat1 (cascaded md cat (normalize tableName, ident)) \<and>
                     (\<forall>y. \<not> visits md cat1 (normalize tableName, ident) y) \<and>
                     Database_delete cat1 (normalize tableName) ident = (None, cat'))) \<and>
         (tables_exist md cat \<and> aligned cat \<and> cat (normalize tableName) \<noteq> None \<and>
          (\<forall>x. x \<notin> cascaded md cat x) \<longrightarrow>
            (\<exists>d c. Crud_delete d md cat tableName ident = Some (None, c)))"
proof (intro conjI impI)
  assume a: "tables_exist md cat \<and> aligned cat \<and> cat (normalize tableName) \<noteq> None \<and>
          (\<forall>x. x \<notin> cascaded md cat x)"
  then have wf: "wfp (\<lambda>y x. visits md cat x y)" using acyclic_visits_wfp by blast
  from a have "cat (fst (normalize tableName, ident)) \<noteq> None" by simp
  from Crud_delete_succeeds_node [OF ex _ _ wf visits_children_finite this] a
  obtain d where "\<forall>c S t. removed cat c S \<longrightarrow> closed md cat S \<longrightarrow>
      normalize t = fst (normalize tableName, ident) \<longrightarrow>
      (\<exists>c'. Crud_delete d md c t (snd (normalize tableName, ident)) = Some (None, c'))"
    by blast
  then have "\<exists>c'. Crud_delete d md cat tableName ident = Some (None, c')"
    using removed_refl [of cat] closed_empty [of md cat] by fastforce
  then show "\<exists>d c. Crud_delete d md cat tableName ident = Some (None, c)" by blast
qed (use cascade_delete_partial [OF ex] in blast)+

subsection \<open>The scenario: two games of player 5\<close>

lemma dice_cols: "fk_columns_exist dice_md dice_db"
  by (auto simp: fk_columns_exist_def dice_md_def dice_db_def games_meta_def players_meta_def
      normalize_def tblGames_def tblPlayers_def getIndex_def split: if_splits)

lemma dice_run:
  "Crud_delete 2 dice_md dice_db ''Players'' (VNum 5) =
     Some (None, dice_db(''tblGames'' \<mapsto> tblGames\<lparr>data := [[VNum 3, VNum 6, VNum 6]]\<rparr>,
                         ''tblPlayers'' \<mapsto> tblPlayers\<lparr>data := [[VNum 6, VStr ''Alan'']]\<rparr>))"
  by (simp add: numeral_2_eq_2 dice_md_def dice_db_def games_meta_def players_meta_def
      normalize_def tblGames_def tblPlayers_def getIndex_def Database_read_def Tables_getTable_def
      Rows_find_def row_matches_def keys_def obj_get_def js_nth_def Database_delete_def
      Rows_delete_def Rows_get_def Let_def)

lemma dice_children:
  "delete_tables (Crud_delete 1 dice_md) ''tblPlayers'' (VNum 5) dice_md dice_db =
     Some (None, dice_db(''tblGames'' \<mapsto> tblGames\<lparr>data := [[VNum 3, VNum 6, VNum 6]]\<rparr>))"
  by (simp add: dice_md_def dice_db_def games_meta_def players_meta_def
      normalize_def tblGames_def tblPlayers_def getIndex_def Database_read_def Tables_getTable_def
      Rows_find_def row_matches_def keys_def obj_get_def js_nth_def Database_delete_def
      Rows_delete_def Rows_get_def Let_def)

lemma dice_refs:
  "visits dice_md dice_db x y \<longleftrightarrow>
   fst x = ''tblPlayers'' \<and>
   (y \<in> fk_children dice_db ''tblGames'' ''player1_id'' (snd x) \<or>
    y \<in> fk_children dice_db ''tblGames'' ''player2_id'' (snd x))"
proof
  assume "visits dice_md dice_db x y"
  then obtain t m fks col where h: "(t, m) \<in> set dice_md" "foreignKeys m = Some fks"
    "map_of fks col = Some (fst x)" "y \<in> fk_children dice_db t col (snd x)"
    unfolding visits_def by blast
  from h(1,2) have t: "t = ''tblGames''" and m: "m = games_meta"
    by (auto simp: dice_md_def players_meta_def)
  with h(2) have fks: "fks = [(''player1_id'', ''tblPlayers''), (''player2_id'', ''tblPlayers'')]"
    by (simp add: games_meta_def)
  with h(3) have "fst x = ''tblPlayers'' \<and> (col = ''player1_id'' \<or> col = ''player2_id'')"
    by (auto split: if_splits)
  with h(4) t show "fst x = ''tblPlayers'' \<and>
   (y \<in> fk_children dice_db ''tblGames'' ''player1_id'' (snd x) \<or>
    y \<in> fk_children dice_db ''tblGames'' ''player2_id'' (snd x))" by auto
next
  assume a: "fst x = ''tblPlayers'' \<and>
   (y \<in> fk_children dice_db ''tblGames'' ''player1_id'' (snd x) \<or>
    y \<in> fk_children dice_db ''tblGames'' ''player2_id'' (snd x))"
  have e: "(''tblGames'', games_meta) \<in> set dice_md" by (simp add: dice_md_def)
  have f: "foreignKeys games_meta =
      Some [(''player1_id'', ''tblPlayers''), (''player2_id'', ''tblPlayers'')]"
    by (simp add: games_meta_def)
  have m1: "map_of [(''player1_id'', ''tblPlayers''), (''player2_id'', ''tblPlayers'')] ''player1_id''
      = Some (fst x)" using a by simp
  have m2: "map_of [(''player1_id'', ''tblPlayers''), (''player2_id'', ''tblPlayers'')] ''player2_id''
      = Some (fst x)" using a by simp
  from a e f m1 m2 show "visits dice_md dice_db x y"
    unfolding visits_def by blast
qed


lemma fk_children_filter:
  "cat (normalize t) = Some tab \<Longrightarrow>
   fk_children cat t col i =
   (\<lambda>r. (normalize t, js_nth r 0)) `
     set (filter (\<lambda>r. 0 \<le> getIndex (columns tab) col \<and> js_nth r (getIndex (columns tab) col) = i)
           (data tab))"
  by (auto simp: fk_children_def)

lemma games_children_p1:
  "fk_children dice_db ''tblGames'' ''player1_id'' (VNum 5) =
   {(''tblGames'', VNum 1), (''tblGames'', VNum 2)}"
proof -
  have "dice_db (normalize ''tblGames'') = Some tblGames" by (simp add: dice_db_def normalize_def)
  from fk_children_filter [of dice_db "''tblGames''" tblGames, OF this] show ?thesis
    by (simp add: tblGames_def getIndex_def js_nth_def normalize_def)
qed

lemma games_children_p2:
  "fk_children dice_db ''tblGames'' ''player2_id'' (VNum 5) = {}"
proof -
  have "dice_db (normalize ''tblGames'') = Some tblGames" by (simp add: dice_db_def normalize_def)
  from fk_children_filter [of dice_db "''tblGames''" tblGames, OF this] show ?thesis
    by (simp add: tblGames_def getIndex_def js_nth_def normalize_def)
qed

lemma dice_cascaded:
  "cascaded dice_md dice_db (''tblPlayers'', VNum 5) =
   {(''tblGames'', VNum 1), (''tblGames'', VNum 2)}"
proof (intro set_eqI iffI)
  fix z assume "z \<in> cascaded dice_md dice_db (''tblPlayers'', VNum 5)"
  then have "(visits dice_md dice_db)\<^sup>+\<^sup>+ (''tblPlayers'', VNum 5) z"
    by (simp add: cascaded_def)
  then show "z \<in> {(''tblGames'', VNum 1), (''tblGames'', VNum 2)}"
  proof (induction rule: tranclp_induct)
    case (base y)
    then show ?case by (simp add: dice_refs games_children_p1 games_children_p2)
  next
    case (step y z)
    then have "fst y = ''tblGames''" by auto
    moreover have "fst y = ''tblPlayers''" using step(2) by (simp add: dice_refs)
    ultimately show ?case by simp
  qed
next
  fix z assume "z \<in> {(''tblGames'', VNum 1), (''tblGames'', VNum 2)}"
  then have "visits dice_md dice_db (''tblPlayers'', VNum 5) z"
    by (simp add: dice_refs games_children_p1 games_children_p2)
  then show "z \<in> cascaded dice_md dice_db (''tblPlayers'', VNum 5)"
    by (auto simp: cascaded_def)
qed

lemma dice_tables: "tables_exist dice_md dice_db"
  by (auto simp: tables_exist_def dice_md_def dice_db_def players_meta_def normalize_def)

lemma dice_aligned: "aligned dice_db"
  by (auto simp: aligned_def dice_db_def tblGames_def tblPlayers_def split: if_splits)

lemma dice_acyclic: "x \<notin> cascaded dice_md dice_db x"
proof
  assume "x \<in> cascaded dice_md dice_db x"
  then have t: "(visits dice_md dice_db)\<^sup>+\<^sup>+ x x" by (simp add: cascaded_def)
  then obtain y where "visits dice_md dice_db x y" by (auto dest: tranclpD)
  then have p: "fst x = ''tblPlayers''" by (simp add: dice_refs)
  from t obtain w where "visits dice_md dice_db w x" by (auto elim: tranclp.cases)
  then have "x \<in> fk_children dice_db ''tblGames'' ''player1_id'' (snd w) \<or>
             x \<in> fk_children dice_db ''tblGames'' ''player2_id'' (snd w)"
    by (simp add: dice_refs)
  then have "fst x = ''tblGames''" by (auto simp: fk_children_def normalize_def)
  with p show False by simp
qed

subsection \<open>The rows visited are the dependents when every target carries the prefix\<close>

lemma visits_iff_references:
  assumes tp: "targets_prefixed md" and nn: "\<not> is_nullish (snd x)"
  shows "visits md cat x y \<longleftrightarrow> references md cat x y"
proof
  assume "visits md cat x y"
  then obtain t m fks col where h: "(t, m) \<in> set md" "foreignKeys m = Some fks"
    "map_of fks col = Some (fst x)" "y \<in> fk_children cat t col (snd x)"
    unfolding visits_def by blast
  from h(3) have "(col, fst x) \<in> set fks" by (rule map_of_SomeD)
  with tp h(1,2) have "normalize (fst x) = fst x" unfolding targets_prefixed_def by blast
  with h nn show "references md cat x y" unfolding references_def by blast
next
  assume "references md cat x y"
  then obtain t m fks col target where h: "(t, m) \<in> set md" "foreignKeys m = Some fks"
    "map_of fks col = Some target" "normalize target = fst x" "y \<in> fk_children cat t col (snd x)"
    unfolding references_def by blast
  from h(3) have "(col, target) \<in> set fks" by (rule map_of_SomeD)
  with tp h(1,2) have "normalize target = target" unfolding targets_prefixed_def by blast
  with h(4) have "target = fst x" by simp
  with h show "visits md cat x y" unfolding visits_def by blast
qed

lemma visits_child_id:
  assumes "ids_present cat" and "visits md cat x y"
  shows "\<not> is_nullish (snd y)"
  using assms unfolding visits_def fk_children_def ids_present_def by auto

lemma references_child_id:
  assumes "ids_present cat" and "references md cat x y"
  shows "\<not> is_nullish (snd y)"
  using assms unfolding references_def fk_children_def ids_present_def by auto

lemma cascaded_eq_dependents:
  assumes tp: "targets_prefixed md" and ip: "ids_present cat" and nn: "\<not> is_nullish (snd x)"
  shows "cascaded md cat x = dependents md cat x"
proof (intro set_eqI iffI)
  fix z assume "z \<in> cascaded md cat x"
  then have "(visits md cat)\<^sup>+\<^sup>+ x z" by (simp add: cascaded_def)
  then have "(references md cat)\<^sup>+\<^sup>+ x z \<and> \<not> is_nullish (snd z)"
  proof (induction rule: tranclp_induct)
    case (base y)
    then show ?case using visits_iff_references [OF tp nn] visits_child_id [OF ip] by blast
  next
    case (step y z)
    then have "references md cat y z" using visits_iff_references [OF tp] by blast
    with step show ?case using visits_child_id [OF ip step(2)] by (auto intro: tranclp.trancl_into_trancl)
  qed
  then show "z \<in> dependents md cat x" by (simp add: dependents_def)
next
  fix z assume "z \<in> dependents md cat x"
  then have "(references md cat)\<^sup>+\<^sup>+ x z" by (simp add: dependents_def)
  then have "(visits md cat)\<^sup>+\<^sup>+ x z \<and> \<not> is_nullish (snd z)"
  proof (induction rule: tranclp_induct)
    case (base y)
    then show ?case using visits_iff_references [OF tp nn] references_child_id [OF ip] by blast
  next
    case (step y z)
    then have "visits md cat y z" using visits_iff_references [OF tp] by blast
    with step show ?case using references_child_id [OF ip step(2)] by (auto intro: tranclp.trancl_into_trancl)
  qed
  then show "z \<in> cascaded md cat x" by (simp add: cascaded_def)
qed

lemma visits_acyclic:
  assumes tp: "targets_prefixed md" and ip: "ids_present cat"
    and ac: "\<forall>x. x \<notin> dependents md cat x"
  shows "\<forall>x. x \<notin> cascaded md cat x"
proof (intro allI notI)
  fix x assume a: "x \<in> cascaded md cat x"
  then have "(visits md cat)\<^sup>+\<^sup>+ x x" by (simp add: cascaded_def)
  then obtain w where "visits md cat w x" by (auto elim: tranclp.cases)
  then have "\<not> is_nullish (snd x)" using visits_child_id [OF ip] by blast
  from cascaded_eq_dependents [OF tp ip this] a ac show False by blast
qed

text \<open>
  \<open>Crud.delete\<close> on metadata whose foreign-key columns exist and whose targets are
  all written with the prefix, in a catalog whose rows all carry an identity, for a
  root identity that is not \<open>null\<close>. A call that returns normally has removed the root
  row and every row that depends on it, directly or through other rows, and no other
  row: all other rows are still in their tables, in their order. The loops over the
  referencing tables end in a catalog from which exactly the dependents are gone and
  in which no row references the root any more, and the root's row is removed from
  that catalog. And the call does return normally, at some depth of recursion, when
  the tables that declare foreign keys and the root's table are in the catalog, every
  table has an index map for each of its constraints, and no row depends on itself.
\<close>

lemma cascade_delete_exact:
  assumes ex: "fk_columns_exist md cat" and tp: "targets_prefixed md" and ip: "ids_present cat"
    and nn: "\<not> is_nullish ident"
  shows "(Crud_delete depth md cat tableName ident = Some (None, cat') \<longrightarrow>
            removed cat cat' (insert (normalize tableName, ident)
                                (dependents md cat (normalize tableName, ident))) \<and>
            (\<exists>cat1. delete_tables (Crud_delete (depth - 1) md) (normalize tableName) ident md cat
                       = Some (None, cat1) \<and>
                     removed cat cat1 (dependents md cat (normalize tableName, ident)) \<and>
                     (\<forall>y. \<not> references md cat1 (normalize tableName, ident) y) \<and>
                     Database_delete cat1 (normalize tableName) ident = (None, cat'))) \<and>
         (tables_exist md cat \<and> aligned cat \<and> cat (normalize tableName) \<noteq> None \<and>
          (\<forall>x. x \<notin> dependents md cat x) \<longrightarrow>
            (\<exists>d c. Crud_delete d md cat tableName ident = Some (None, c)))"
proof -
  have nn': "\<not> is_nullish (snd (normalize tableName, ident))" using nn by simp
  have eq: "cascaded md cat (normalize tableName, ident) = dependents md cat (normalize tableName, ident)"
    using cascaded_eq_dependents [OF tp ip nn'] .
  have v: "visits md c (normalize tableName, ident) y \<longleftrightarrow> references md c (normalize tableName, ident) y"
    for c y using visits_iff_references [OF tp nn'] .
  note t = cascade_follows_visits [OF ex, of depth tableName ident cat']
  have a: "Crud_delete depth md cat tableName ident = Some (None, cat') \<longrightarrow>
            removed cat cat' (insert (normalize tableName, ident)
                                (dependents md cat (normalize tableName, ident))) \<and>
            (\<exists>cat1. delete_tables (Crud_delete (depth - 1) md) (normalize tableName) ident md cat
                       = Some (None, cat1) \<and>
                     removed cat cat1 (dependents md cat (normalize tableName, ident)) \<and>
                     (\<forall>y. \<not> references md cat1 (normalize tableName, ident) y) \<and>
                     Database_delete cat1 (normalize tableName) ident = (None, cat'))"
    using t unfolding eq v by blast
  have b: "tables_exist md cat \<and> aligned cat \<and> cat (normalize tableName) \<noteq> None \<and>
          (\<forall>x. x \<notin> dependents md cat x) \<longrightarrow>
            (\<exists>d c. Crud_delete d md cat tableName ident = Some (None, c))"
    using t visits_acyclic [OF tp ip] by blast
  from a b show ?thesis by blast
qed

lemma dice_prefixed: "targets_prefixed dice_md"
  by (auto simp: targets_prefixed_def dice_md_def games_meta_def players_meta_def normalize_def)

lemma dice_ids: "ids_present dice_db"
  by (auto simp: ids_present_def dice_db_def tblGames_def tblPlayers_def js_nth_def
      split: if_splits)

lemma dice_dependents:
  "dependents dice_md dice_db (''tblPlayers'', VNum 5) =
   {(''tblGames'', VNum 1), (''tblGames'', VNum 2)}"
  using cascaded_eq_dependents [OF dice_prefixed dice_ids, of "(''tblPlayers'', VNum 5)"]
    dice_cascaded by simp

lemma dice_no_cycle: "x \<notin> dependents dice_md dice_db x"
proof (cases "is_nullish (snd x)")
  case True
  show ?thesis
  proof
    assume "x \<in> dependents dice_md dice_db x"
    then have "(references dice_md dice_db)\<^sup>+\<^sup>+ x x" by (simp add: dependents_def)
    then obtain y where "references dice_md dice_db x y" by (auto dest: tranclpD)
    with True show False by (simp add: references_def)
  qed
next
  case False
  from cascaded_eq_dependents [OF dice_prefixed dice_ids False] dice_acyclic [of x]
  show ?thesis by simp
qed

lemma dice_cascade_exact:
  "Crud_delete 2 dice_md dice_db ''Players'' (VNum 5) =
     Some (None, dice_db(''tblGames'' \<mapsto> tblGames\<lparr>data := [[VNum 3, VNum 6, VNum 6]]\<rparr>,
                         ''tblPlayers'' \<mapsto> tblPlayers\<lparr>data := [[VNum 6, VStr ''Alan'']]\<rparr>)) \<and>
   removed dice_db
     (dice_db(''tblGames'' \<mapsto> tblGames\<lparr>data := [[VNum 3, VNum 6, VNum 6]]\<rparr>,
              ''tblPlayers'' \<mapsto> tblPlayers\<lparr>data := [[VNum 6, VStr ''Alan'']]\<rparr>))
     {(''tblPlayers'', VNum 5), (''tblGames'', VNum 1), (''tblGames'', VNum 2)} \<and>
   (\<exists>d c. Crud_delete d dice_md dice_db ''Players'' (VNum 5) = Some (None, c))"
proof -
  let ?X = "dice_db(''tblGames'' \<mapsto> tblGames\<lparr>data := [[VNum 3, VNum 6, VNum 6]]\<rparr>,
              ''tblPlayers'' \<mapsto> tblPlayers\<lparr>data := [[VNum 6, VStr ''Alan'']]\<rparr>)"
  have n: "normalize ''Players'' = ''tblPlayers''" by (simp add: normalize_def)
  have root: "dice_db (normalize ''Players'') \<noteq> None" by (simp add: n dice_db_def)
  have nn: "\<not> is_nullish (VNum 5)" by simp
  note t = cascade_delete_exact [OF dice_cols dice_prefixed dice_ids nn, of 2 "''Players''" ?X]
  from t dice_run have "removed dice_db ?X
     (insert (''tblPlayers'', VNum 5) (dependents dice_md dice_db (''tblPlayers'', VNum 5)))"
    unfolding n by blast
  then have r: "removed dice_db ?X
     {(''tblPlayers'', VNum 5), (''tblGames'', VNum 1), (''tblGames'', VNum 2)}"
    unfolding dice_dependents .
  from t dice_tables dice_aligned root dice_no_cycle
  have e: "\<exists>d c. Crud_delete d dice_md dice_db ''Players'' (VNum 5) = Some (None, c)" by blast
  from dice_run r e show ?thesis by blast
qed

subsection \<open>A foreign-key column the table does not have\<close>

text \<open>
  \<open>owner_md\<close> declares the foreign key of \<open>tblGames\<close> on \<open>owner_id\<close>, which is no
  column of that table. \<open>Rows.find\<close> ignores a filter key that is no column, so the
  delete of player 5 reads every row of \<open>tblGames\<close> and removes all three games,
  although player 5 has no dependent under this metadata.
\<close>

lemma cascade_overdeletes_on_missing_column:
  "getIndex (columns tblGames) ''owner_id'' = - 1 \<and>
   dependents owner_md dice_db (''tblPlayers'', VNum 5) = {} \<and>
   Crud_delete 2 owner_md dice_db ''Players'' (VNum 5) =
     Some (None, dice_db(''tblGames'' \<mapsto> tblGames\<lparr>data := []\<rparr>,
                         ''tblPlayers'' \<mapsto> tblPlayers\<lparr>data := [[VNum 6, VStr ''Alan'']]\<rparr>))"
proof -
  have a: "getIndex (columns tblGames) ''owner_id'' = - 1"
    by (simp add: tblGames_def getIndex_def)
  have "\<not> references owner_md dice_db (''tblPlayers'', VNum 5) y" for y
    using a by (auto simp: references_def owner_md_def owner_meta_def players_meta_def
        fk_children_def dice_db_def normalize_def split: if_splits)
  then have b: "dependents owner_md dice_db (''tblPlayers'', VNum 5) = {}"
    by (auto simp: dependents_def dest: tranclpD)
  have c: "Crud_delete 2 owner_md dice_db ''Players'' (VNum 5) =
     Some (None, dice_db(''tblGames'' \<mapsto> tblGames\<lparr>data := []\<rparr>,
                         ''tblPlayers'' \<mapsto> tblPlayers\<lparr>data := [[VNum 6, VStr ''Alan'']]\<rparr>))"
    by (simp add: numeral_2_eq_2 owner_md_def dice_db_def owner_meta_def players_meta_def
      normalize_def tblGames_def tblPlayers_def getIndex_def Database_read_def Tables_getTable_def
      Rows_find_def row_matches_def keys_def obj_get_def js_nth_def Database_delete_def
      Rows_delete_def Rows_get_def Let_def)
  from a b c show ?thesis by simp
qed

section \<open>A foreign key declared against the bare table name\<close>

lemma bare_refs:
  "references bare_md dice_db x y \<longleftrightarrow>
   \<not> is_nullish (snd x) \<and> fst x = ''tblPlayers'' \<and>
   (y \<in> fk_children dice_db ''tblGames'' ''player1_id'' (snd x) \<or>
    y \<in> fk_children dice_db ''tblGames'' ''player2_id'' (snd x))"
proof
  assume "references bare_md dice_db x y"
  then obtain t m fks col target where nn: "\<not> is_nullish (snd x)"
    and h: "(t, m) \<in> set bare_md" "foreignKeys m = Some fks"
    "map_of fks col = Some target" "normalize target = fst x" "y \<in> fk_children dice_db t col (snd x)"
    unfolding references_def by blast
  from h(1,2) have t: "t = ''tblGames''" and m: "m = bare_meta"
    by (auto simp: bare_md_def players_meta_def)
  with h(2) have fks: "fks = [(''player1_id'', ''Players''), (''player2_id'', ''Players'')]"
    by (simp add: bare_meta_def)
  with h(3) have "target = ''Players'' \<and> (col = ''player1_id'' \<or> col = ''player2_id'')"
    by (auto split: if_splits)
  with h(4,5) t nn show "\<not> is_nullish (snd x) \<and> fst x = ''tblPlayers'' \<and>
   (y \<in> fk_children dice_db ''tblGames'' ''player1_id'' (snd x) \<or>
    y \<in> fk_children dice_db ''tblGames'' ''player2_id'' (snd x))"
    by (auto simp: normalize_def)
next
  assume a: "\<not> is_nullish (snd x) \<and> fst x = ''tblPlayers'' \<and>
   (y \<in> fk_children dice_db ''tblGames'' ''player1_id'' (snd x) \<or>
    y \<in> fk_children dice_db ''tblGames'' ''player2_id'' (snd x))"
  have e: "(''tblGames'', bare_meta) \<in> set bare_md" by (simp add: bare_md_def)
  have f: "foreignKeys bare_meta =
      Some [(''player1_id'', ''Players''), (''player2_id'', ''Players'')]"
    by (simp add: bare_meta_def)
  have m1: "map_of [(''player1_id'', ''Players''), (''player2_id'', ''Players'')] ''player1_id''
      = Some ''Players''" by simp
  have m2: "map_of [(''player1_id'', ''Players''), (''player2_id'', ''Players'')] ''player2_id''
      = Some ''Players''" by simp
  have n: "normalize ''Players'' = fst x" using a by (simp add: normalize_def)
  from a e f m1 m2 n show "references bare_md dice_db x y"
    unfolding references_def by blast
qed

lemma bare_dependents:
  "dependents bare_md dice_db (''tblPlayers'', VNum 5) =
   {(''tblGames'', VNum 1), (''tblGames'', VNum 2)}"
proof (intro set_eqI iffI)
  fix z assume "z \<in> dependents bare_md dice_db (''tblPlayers'', VNum 5)"
  then have "(references bare_md dice_db)\<^sup>+\<^sup>+ (''tblPlayers'', VNum 5) z"
    by (simp add: dependents_def)
  then show "z \<in> {(''tblGames'', VNum 1), (''tblGames'', VNum 2)}"
  proof (induction rule: tranclp_induct)
    case (base y)
    then show ?case by (simp add: bare_refs games_children_p1 games_children_p2)
  next
    case (step y z)
    then have "fst y = ''tblGames''" by auto
    moreover have "fst y = ''tblPlayers''" using step(2) by (simp add: bare_refs)
    ultimately show ?case by simp
  qed
next
  fix z assume "z \<in> {(''tblGames'', VNum 1), (''tblGames'', VNum 2)}"
  then have "references bare_md dice_db (''tblPlayers'', VNum 5) z"
    by (simp add: bare_refs games_children_p1 games_children_p2)
  then show "z \<in> dependents bare_md dice_db (''tblPlayers'', VNum 5)"
    by (auto simp: dependents_def)
qed

lemma bare_run:
  "Crud_delete (Suc depth) bare_md dice_db ''Players'' (VNum 5) =
     Some (None, dice_db(''tblPlayers'' \<mapsto> tblPlayers\<lparr>data := [[VNum 6, VStr ''Alan'']]\<rparr>))"
  by (simp add: bare_md_def dice_db_def bare_meta_def players_meta_def
      normalize_def tblPlayers_def getIndex_def Tables_getTable_def js_nth_def
      Database_delete_def Rows_delete_def Rows_get_def Let_def)

text \<open>
  Claim C3. The cascade finds the tables that reference the root's table by comparing
  each target as it was declared with the normalised name of the root's table. A
  foreign key declared against the bare name \<open>Players\<close> is registered by
  \<open>Crud.define\<close> and enforced by \<open>Crud.create\<close>, which refuses a game for a player
  999 that does not exist, but for \<open>Crud.delete\<close> it is no reference to
  \<open>tblPlayers\<close>. Games 1 and 2 hold player 5 in \<open>player1_id\<close> and are its
  dependents; the delete of player 5 returns normally at every depth of recursion
  allowed, with the player's row removed and nothing else, and the read of the games
  of player 5 still returns games 1 and 2. With the same foreign keys declared against
  \<open>tblPlayers\<close> the same call removes both games and the player.
\<close>

theorem cascade_misses_unprefixed_target:
  "Crud_define [(''tblPlayers'', players_meta)] ''Games'' bare_meta = Inr bare_md \<and>
   Crud_create bare_md dice_db ''Games'' [(''player1_id'', VNum 999)] =
     (Inl (ForeignKeyViolation ''Players'' ''player1_id'' (VNum 999)), dice_db) \<and>
   dependents bare_md dice_db (''tblPlayers'', VNum 5) =
     {(''tblGames'', VNum 1), (''tblGames'', VNum 2)} \<and>
   (\<forall>depth. Crud_delete (Suc depth) bare_md dice_db ''Players'' (VNum 5) =
      Some (None, dice_db(''tblPlayers'' \<mapsto> tblPlayers\<lparr>data := [[VNum 6, VStr ''Alan'']]\<rparr>))) \<and>
   Database_read (dice_db(''tblPlayers'' \<mapsto> tblPlayers\<lparr>data := [[VNum 6, VStr ''Alan'']]\<rparr>))
       ''Games'' [(''player1_id'', VNum 5)] =
     Inr [[VNum 1, VNum 5, VNum 6], [VNum 2, VNum 5, VNum 6]] \<and>
   Crud_delete 2 dice_md dice_db ''Players'' (VNum 5) =
     Some (None, dice_db(''tblGames'' \<mapsto> tblGames\<lparr>data := [[VNum 3, VNum 6, VNum 6]]\<rparr>,
                         ''tblPlayers'' \<mapsto> tblPlayers\<lparr>data := [[VNum 6, VStr ''Alan'']]\<rparr>))"
proof -
  have a: "Crud_define [(''tblPlayers'', players_meta)] ''Games'' bare_meta = Inr bare_md"
    by (simp add: Crud_define_def bare_md_def normalize_def)
  have b: "Crud_create bare_md dice_db ''Games'' [(''player1_id'', VNum 999)] =
     (Inl (ForeignKeyViolation ''Players'' ''player1_id'' (VNum 999)), dice_db)"
    by (simp add: Crud_create_def bare_md_def bare_meta_def players_meta_def normalize_def
        obj_get_def Database_read_def Tables_getTable_def dice_db_def Crud_pkOf_def
        Rows_find_def row_matches_def keys_def getIndex_def js_nth_def tblPlayers_def Let_def)
  have c: "Database_read (dice_db(''tblPlayers'' \<mapsto> tblPlayers\<lparr>data := [[VNum 6, VStr ''Alan'']]\<rparr>))
       ''Games'' [(''player1_id'', VNum 5)] =
     Inr [[VNum 1, VNum 5, VNum 6], [VNum 2, VNum 5, VNum 6]]"
    by (simp add: Database_read_def Tables_getTable_def dice_db_def normalize_def
        Rows_find_def row_matches_def keys_def getIndex_def js_nth_def tblGames_def obj_get_def)
  from a b c bare_dependents bare_run dice_run show ?thesis by simp
qed

end
